theory Spec2Isabelle
  imports Main
begin

section \<open>Python strings\<close>

text \<open>
  A Python \<^verbatim>\<open>str\<close> is a sequence of Unicode code points.  The tool-call markers
  of the DeepSeek R1 parser contain code points above 255, so a string is a list of
  code points (natural numbers), not a list of 8-bit characters.  \<open>str\<close> turns an
  ASCII literal into such a list.
\<close>

type_synonym codepoint = nat
type_synonym pystr = "codepoint list"

definition str :: "string \<Rightarrow> pystr" where
  "str s = map of_char s"

text \<open>
  \<^verbatim>\<open>str.isspace\<close> on one code point; the same set is what \<^verbatim>\<open>\s\<close> matches in a
  \<^verbatim>\<open>re\<close> pattern over \<^verbatim>\<open>str\<close>: U+0009..U+000D, U+001C..U+0020, U+0085, U+00A0,
  U+1680, U+2000..U+200A, U+2028, U+2029, U+202F, U+205F, U+3000.
\<close>

definition isspace :: "codepoint \<Rightarrow> bool" where
  "isspace c =
     ((9 \<le> c \<and> c \<le> 13) \<or> (28 \<le> c \<and> c \<le> 32) \<or> c = 133 \<or> c = 160 \<or> c = 5760
      \<or> (8192 \<le> c \<and> c \<le> 8202) \<or> c = 8232 \<or> c = 8233 \<or> c = 8239 \<or> c = 8287
      \<or> c = 12288)"

text \<open>\<^verbatim>\<open>s.strip()\<close>: leading and trailing whitespace removed.\<close>

definition lstrip :: "pystr \<Rightarrow> pystr" where
  "lstrip s = dropWhile isspace s"

definition rstrip :: "pystr \<Rightarrow> pystr" where
  "rstrip s = rev (dropWhile isspace (rev s))"

definition strip :: "pystr \<Rightarrow> pystr" where
  "strip s = rstrip (lstrip s)"

text \<open>\<^verbatim>\<open>s.startswith(p)\<close>.\<close>

fun startswith :: "pystr \<Rightarrow> pystr \<Rightarrow> bool" where
  "startswith s [] = True"
| "startswith [] (p # ps) = False"
| "startswith (x # xs) (p # ps) = (x = p \<and> startswith xs ps)"

text \<open>\<^verbatim>\<open>sub in s\<close>: the substring test.\<close>

fun contains :: "pystr \<Rightarrow> pystr \<Rightarrow> bool" where
  "contains sub [] = (sub = [])"
| "contains sub (x # xs) = (startswith (x # xs) sub \<or> contains sub xs)"

text \<open>
  The exceptions of the Python code that the model distinguishes.  Every one of them is
  an \<^verbatim>\<open>Exception\<close>, so an \<^verbatim>\<open>except Exception\<close> handler catches each.
\<close>

datatype py_error = ValueError | KeyError | TypeError | JSONDecodeError | MalformedCallError

text \<open>
  The first element of \<^verbatim>\<open>s.split(sep)\<close> and of \<^verbatim>\<open>s.split(sep, 1)\<close>: the text
  before the first occurrence of \<open>sep\<close>, all of \<open>s\<close> when \<open>sep\<close> does not occur.
  Python raises \<^verbatim>\<open>ValueError\<close> for an empty separator.
\<close>

fun before_first :: "pystr \<Rightarrow> pystr \<Rightarrow> pystr" where
  "before_first sep [] = []"
| "before_first sep (x # xs) =
     (if startswith (x # xs) sep then [] else x # before_first sep xs)"

definition split_head :: "pystr \<Rightarrow> pystr \<Rightarrow> py_error + pystr" where
  "split_head s sep = (if sep = [] then Inl ValueError else Inr (before_first sep s))"

section \<open>Regular expressions\<close>

text \<open>
  The two patterns of the parsers use literal characters, \<^verbatim>\<open>\s*\<close>, \<^verbatim>\<open>.*?\<close> under
  \<^verbatim>\<open>re.DOTALL\<close> and one capturing group.  A pattern is a list of nodes; the matcher
  is the backtracking matcher of Python's engine restricted to these nodes: a greedy
  star tries the longest repetition first, a lazy star the shortest, and the first
  alternative that lets the rest of the pattern match wins.
\<close>

datatype atom = Lit codepoint | Dot | Space

datatype node = One atom | Star atom | StarLazy atom | GroupOpen | GroupClose

fun accepts :: "atom \<Rightarrow> codepoint \<Rightarrow> bool" where
  "accepts (Lit a) c = (c = a)"
| "accepts Dot c = True"
| "accepts Space c = isspace c"

text \<open>
  \<open>rmatch p s g\<close> matches \<open>p\<close> at the start of \<open>s\<close>.  \<open>g\<close> holds the input
  that remained when the group was opened and when it was closed; the result is the
  final \<open>g\<close> and the input that remains after the match.
\<close>

fun rmatch :: "node list \<Rightarrow> pystr \<Rightarrow> pystr \<times> pystr \<Rightarrow> ((pystr \<times> pystr) \<times> pystr) option" where
  "rmatch [] s g = Some (g, s)"
| "rmatch (One a # p) [] g = None"
| "rmatch (One a # p) (c # cs) g = (if accepts a c then rmatch p cs g else None)"
| "rmatch (Star a # p) [] g = rmatch p [] g"
| "rmatch (Star a # p) (c # cs) g =
     (if accepts a c
      then (case rmatch (Star a # p) cs g of
              Some r \<Rightarrow> Some r
            | None \<Rightarrow> rmatch p (c # cs) g)
      else rmatch p (c # cs) g)"
| "rmatch (StarLazy a # p) [] g = rmatch p [] g"
| "rmatch (StarLazy a # p) (c # cs) g =
     (case rmatch p (c # cs) g of
        Some r \<Rightarrow> Some r
      | None \<Rightarrow> (if accepts a c then rmatch (StarLazy a # p) cs g else None))"
| "rmatch (GroupOpen # p) s g = rmatch p s (s, snd g)"
| "rmatch (GroupClose # p) s g = rmatch p s (fst g, s)"

text \<open>
  A match object: where the match starts in the searched string, the matched text
  (\<^verbatim>\<open>group(0)\<close>) and the text of the group (\<^verbatim>\<open>group(1)\<close>).
\<close>

record match_obj =
  m_start :: nat
  group0 :: pystr
  group1 :: pystr

text \<open>
  \<^verbatim>\<open>pattern.finditer(s)\<close>: the non-overlapping matches from left to right.  \<open>i\<close> is
  the position of \<open>s\<close> in the searched string.  After a match the scan goes on where
  the match ended, after a failure one code point further.  Neither pattern of the
  parsers matches the empty string (\<open>rmatch_tool_call_block_re_shorter\<close>,
  \<open>rmatch_TOOL_CALL_REGEX_shorter\<close>), so the treatment of an empty match is not part
  of the model: the scan stops there.
\<close>

function finditer_from :: "node list \<Rightarrow> nat \<Rightarrow> pystr \<Rightarrow> match_obj list" where
  "finditer_from p i s =
     (case rmatch p s ([], []) of
        Some ((go, gc), r) \<Rightarrow>
          (if length r < length s
           then \<lparr>m_start = i,
                 group0 = take (length s - length r) s,
                 group1 = take (length go - length gc) go\<rparr>
                # finditer_from p (i + (length s - length r)) r
           else [])
      | None \<Rightarrow> (case s of [] \<Rightarrow> [] | c # cs \<Rightarrow> finditer_from p (Suc i) cs))"
  by pat_completeness auto
termination
  by (relation "measure (\<lambda>(p, i, s). length s)") auto

declare finditer_from.simps [simp del]

definition finditer :: "node list \<Rightarrow> pystr \<Rightarrow> match_obj list" where
  "finditer p s = finditer_from p 0 s"

text \<open>
  \<^verbatim>\<open>pattern.findall(s)\<close>: the text of the group when the pattern has one, the whole
  match otherwise.
\<close>

definition findall :: "node list \<Rightarrow> pystr \<Rightarrow> pystr list" where
  "findall p s =
     map (\<lambda>m. if GroupOpen \<in> set p then group1 m else group0 m) (finditer p s)"

text \<open>\<^verbatim>\<open>re.escape(s)\<close> followed by compilation: the literal \<open>s\<close>.\<close>

definition escape :: "pystr \<Rightarrow> node list" where
  "escape s = map (\<lambda>c. One (Lit c)) s"

text \<open>
  The words a pattern matches, without the order in which the matcher tries the
  alternatives: \<open>rmatch\<close> succeeds on a text exactly when the pattern matches a prefix
  of it (\<open>rmatch_succeeds_iff\<close>).
\<close>

fun mat :: "node list \<Rightarrow> pystr \<Rightarrow> bool" where
  "mat [] w = (w = [])"
| "mat (One a # p) [] = False"
| "mat (One a # p) (c # cs) = (accepts a c \<and> mat p cs)"
| "mat (Star a # p) [] = mat p []"
| "mat (Star a # p) (c # cs) = ((accepts a c \<and> mat (Star a # p) cs) \<or> mat p (c # cs))"
| "mat (StarLazy a # p) [] = mat p []"
| "mat (StarLazy a # p) (c # cs) = (mat p (c # cs) \<or> (accepts a c \<and> mat (StarLazy a # p) cs))"
| "mat (GroupOpen # p) w = mat p w"
| "mat (GroupClose # p) w = mat p w"

section \<open>JSON values, \<^verbatim>\<open>json.loads\<close> and \<^verbatim>\<open>json.dumps\<close>\<close>

text \<open>
  The values \<^verbatim>\<open>json.loads\<close> returns.  A \<^verbatim>\<open>dict\<close> is an association list with
  distinct keys in insertion order.  Binary floating point is not modelled: a float is
  represented by the literal it was read from, a number literal or one of the
  constants \<^verbatim>\<open>NaN\<close>, \<^verbatim>\<open>Infinity\<close> and \<^verbatim>\<open>-Infinity\<close>, and the text that
  \<^verbatim>\<open>float.__repr__\<close> gives for the float of a number literal is a parameter
  \<open>float_repr\<close> of the encoder.  The limits of the interpreter (recursion depth, the
  maximal length of an integer literal) are not modelled.
\<close>

datatype json =
    JNull
  | JBool bool
  | JInt int
  | JFloat pystr
  | JStr pystr
  | JArr "json list"
  | JObj "(pystr \<times> json) list"

text \<open>\<^verbatim>\<open>d[k] = v\<close> on a dict: a known key keeps its place.\<close>

fun dict_set :: "(pystr \<times> json) list \<Rightarrow> pystr \<Rightarrow> json \<Rightarrow> (pystr \<times> json) list" where
  "dict_set [] k v = [(k, v)]"
| "dict_set ((k', v') # kvs) k v =
     (if k' = k then (k, v) # kvs else (k', v') # dict_set kvs k v)"

text \<open>\<^verbatim>\<open>obj[k]\<close> for a string key \<open>k\<close>: only a dict that has the key answers.\<close>

fun getitem :: "json \<Rightarrow> pystr \<Rightarrow> py_error + json" where
  "getitem (JObj kvs) k = (case map_of kvs k of None \<Rightarrow> Inl KeyError | Some v \<Rightarrow> Inr v)"
| "getitem v k = Inl TypeError"

subsection \<open>The decoder\<close>

definition is_ws :: "codepoint \<Rightarrow> bool" where
  "is_ws c = (c = 32 \<or> c = 9 \<or> c = 10 \<or> c = 13)"

definition skip_ws :: "pystr \<Rightarrow> pystr" where
  "skip_ws s = dropWhile is_ws s"

definition is_digit :: "codepoint \<Rightarrow> bool" where
  "is_digit c = (48 \<le> c \<and> c \<le> 57)"

definition hex_val :: "codepoint \<Rightarrow> nat option" where
  "hex_val c =
     (if 48 \<le> c \<and> c \<le> 57 then Some (c - 48)
      else if 97 \<le> c \<and> c \<le> 102 then Some (c - 87)
      else if 65 \<le> c \<and> c \<le> 70 then Some (c - 55)
      else None)"

text \<open>Four hexadecimal digits at the start of \<open>s\<close>, and what follows them.\<close>

fun hex4 :: "pystr \<Rightarrow> (nat \<times> pystr) option" where
  "hex4 (a # b # c # d # r) =
     (case (hex_val a, hex_val b, hex_val c, hex_val d) of
        (Some x, Some y, Some z, Some w) \<Rightarrow> Some (((x * 16 + y) * 16 + z) * 16 + w, r)
      | _ \<Rightarrow> None)"
| "hex4 s = None"

text \<open>
  The escape after a backslash: the decoded code point and the remaining input.  A
  high surrogate followed by the escape of a low surrogate (and by at least one more
  code point) is joined with it.
\<close>

fun unescape :: "pystr \<Rightarrow> (codepoint \<times> pystr) option" where
  "unescape [] = None"
| "unescape (e # es) =
     (if e = 34 then Some (34, es)
      else if e = 92 then Some (92, es)
      else if e = 47 then Some (47, es)
      else if e = 98 then Some (8, es)
      else if e = 102 then Some (12, es)
      else if e = 110 then Some (10, es)
      else if e = 114 then Some (13, es)
      else if e = 116 then Some (9, es)
      else if e = 117 then
        (case hex4 es of
           None \<Rightarrow> None
         | Some (u, r) \<Rightarrow>
             (if 55296 \<le> u \<and> u \<le> 56319 \<and> 6 < length r \<and> startswith r [92, 117]
              then (case hex4 (drop 2 r) of
                      None \<Rightarrow> None
                    | Some (u2, r2) \<Rightarrow>
                        (if 56320 \<le> u2 \<and> u2 \<le> 57343
                         then Some (65536 + ((u - 55296) * 1024 + (u2 - 56320)), r2)
                         else Some (u, r)))
              else Some (u, r)))
      else None)"

lemma unescape_shorter: "unescape s = Some (c, r) \<Longrightarrow> length r < length s"
proof (cases s)
  case Nil
  assume "unescape s = Some (c, r)"
  with Nil show ?thesis by simp
next
  case (Cons e es)
  have h4: "\<And>t u q. hex4 t = Some (u, q) \<Longrightarrow> length q < length t"
  proof -
    fix t u q
    assume "hex4 t = Some (u, q)"
    then show "length q < length t"
      by (induction t rule: hex4.induct) (auto split: option.splits)
  qed
  assume "unescape s = Some (c, r)"
  with Cons show ?thesis
    by (auto split: if_splits option.splits dest!: h4)
qed

text \<open>
  \<^verbatim>\<open>scanstring\<close> after the opening quote, in strict mode: the decoded string (\<open>acc\<close>
  holds what was decoded so far) and the input after the closing quote.  A control
  character inside the string is an error.
\<close>

function scanstring :: "pystr \<Rightarrow> pystr \<Rightarrow> (pystr \<times> pystr) option" where
  "scanstring [] acc = None"
| "scanstring (c # cs) acc =
     (if c = 34 then Some (acc, cs)
      else if c = 92 then
        (case unescape cs of
           None \<Rightarrow> None
         | Some (u, r) \<Rightarrow> scanstring r (acc @ [u]))
      else if c < 32 then None
      else scanstring cs (acc @ [c]))"
  by pat_completeness auto
termination
  by (relation "measure (\<lambda>(s, acc). length s)") (auto dest: unescape_shorter)

lemma scanstring_shorter: "scanstring s acc = Some (t, r) \<Longrightarrow> length r < length s"
proof (induction s acc rule: scanstring.induct)
  case (1 acc)
  then show ?case by simp
next
  case (2 c cs acc)
  then show ?case
    by (fastforce split: if_splits option.splits dest: unescape_shorter)
qed

text \<open>The value of a string of decimal digits.\<close>

definition digits_val :: "pystr \<Rightarrow> nat" where
  "digits_val ds = foldl (\<lambda>n d. 10 * n + (d - 48)) 0 ds"

text \<open>
  The integer part of a number at the start of \<open>s\<close>: a single \<^verbatim>\<open>0\<close>, or a digit from
  1 to 9 followed by digits.
\<close>

fun int_part :: "pystr \<Rightarrow> (pystr \<times> pystr) option" where
  "int_part [] = None"
| "int_part (d # ds) =
     (if 49 \<le> d \<and> d \<le> 57 then Some (d # takeWhile is_digit ds, dropWhile is_digit ds)
      else if d = 48 then Some ([48], ds)
      else None)"

text \<open>The fraction: a dot followed by at least one digit; empty when there is none.\<close>

fun frac_part :: "pystr \<Rightarrow> pystr \<times> pystr" where
  "frac_part (p # d # ds) =
     (if p = 46 \<and> is_digit d
      then (p # d # takeWhile is_digit ds, dropWhile is_digit ds)
      else ([], p # d # ds))"
| "frac_part s = ([], s)"

text \<open>
  The exponent: \<^verbatim>\<open>e\<close> or \<^verbatim>\<open>E\<close>, a sign when a code point follows it, and at least
  one digit; the scanner backtracks to before the \<^verbatim>\<open>e\<close> when there is no digit.
\<close>

fun exp_part :: "pystr \<Rightarrow> pystr \<times> pystr" where
  "exp_part (e # x # xs) =
     (if e = 101 \<or> e = 69
      then (let (sg, ds) = (if (x = 45 \<or> x = 43) \<and> xs \<noteq> [] then ([x], xs) else ([], x # xs))
            in if takeWhile is_digit ds \<noteq> []
               then (e # sg @ takeWhile is_digit ds, dropWhile is_digit ds)
               else ([], e # x # xs))
      else ([], e # x # xs))"
| "exp_part s = ([], s)"

text \<open>
  \<^verbatim>\<open>_match_number\<close>: an optional minus sign, the integer part, the fraction and the
  exponent.  A literal with a fraction or an exponent is a float, any other an integer.
\<close>

definition match_number :: "pystr \<Rightarrow> (json \<times> pystr) option" where
  "match_number s =
     (let (sign, s1) = (case s of c # cs \<Rightarrow> if c = 45 then ([45], cs) else ([], s) | [] \<Rightarrow> ([], s))
      in case int_part s1 of
           None \<Rightarrow> None
         | Some (ip, s2) \<Rightarrow>
             (let (fp, s3) = frac_part s2;
                  (ep, s4) = exp_part s3
              in if fp = [] \<and> ep = []
                 then Some (JInt (if sign = [] then int (digits_val ip) else - int (digits_val ip)), s4)
                 else Some (JFloat (sign @ ip @ fp @ ep), s4)))"

text \<open>The named constants of the scanner.\<close>

definition scan_constant :: "pystr \<Rightarrow> (json \<times> pystr) option" where
  "scan_constant s =
     (if startswith s (str ''null'') then Some (JNull, drop 4 s)
      else if startswith s (str ''true'') then Some (JBool True, drop 4 s)
      else if startswith s (str ''false'') then Some (JBool False, drop 5 s)
      else if startswith s (str ''NaN'') then Some (JFloat (str ''NaN''), drop 3 s)
      else if startswith s (str ''Infinity'') then Some (JFloat (str ''Infinity''), drop 8 s)
      else if startswith s (str ''-Infinity'') then Some (JFloat (str ''-Infinity''), drop 9 s)
      else None)"

lemma length_skip_ws: "length (skip_ws s) \<le> length s"
  by (simp add: skip_ws_def length_dropWhile_le)

lemma skip_ws_Cons_shorter: "skip_ws s = d # ds \<Longrightarrow> length ds < length s"
  using length_skip_ws [of s] by simp

text \<open>
  \<^verbatim>\<open>scan_once\<close> with the loops of \<^verbatim>\<open>_parse_object\<close> and \<^verbatim>\<open>_parse_array\<close>: the
  value at the start of the input and the input that remains.  The loops go on with
  what the scan of an element left; the test that this is shorter than the loop's own
  input is there for the termination proof and never fails (\<open>scan_once_shorter\<close>).
\<close>

function scan_once :: "pystr \<Rightarrow> (json \<times> pystr) option"
  and object_loop :: "(pystr \<times> json) list \<Rightarrow> pystr \<Rightarrow> (json \<times> pystr) option"
  and array_loop :: "json list \<Rightarrow> pystr \<Rightarrow> (json \<times> pystr) option" where
  "scan_once [] = None"
| "scan_once (c # cs) =
     (if c = 34 then
        (case scanstring cs [] of None \<Rightarrow> None | Some (t, r) \<Rightarrow> Some (JStr t, r))
      else if c = 123 then
        (case skip_ws cs of
           [] \<Rightarrow> None
         | d # ds \<Rightarrow> if d = 125 then Some (JObj [], ds) else object_loop [] (d # ds))
      else if c = 91 then
        (case skip_ws cs of
           [] \<Rightarrow> None
         | d # ds \<Rightarrow> if d = 93 then Some (JArr [], ds) else array_loop [] (d # ds))
      else (case scan_constant (c # cs) of
              Some r \<Rightarrow> Some r
            | None \<Rightarrow> match_number (c # cs)))"
| "object_loop acc [] = None"
| "object_loop acc (q # s1) =
     (if q \<noteq> 34 then None
      else case scanstring s1 [] of
             None \<Rightarrow> None
           | Some (key, s2) \<Rightarrow>
               (case skip_ws s2 of
                  [] \<Rightarrow> None
                | col # s3 \<Rightarrow>
                    (if col \<noteq> 58 then None
                     else case scan_once (skip_ws s3) of
                            None \<Rightarrow> None
                          | Some (v, s4) \<Rightarrow>
                              (if length s4 < length (q # s1)
                               then (case skip_ws s4 of
                                       [] \<Rightarrow> None
                                     | e # s5 \<Rightarrow>
                                         (if e = 125 then Some (JObj (dict_set acc key v), s5)
                                          else if e = 44
                                          then object_loop (dict_set acc key v) (skip_ws s5)
                                          else None))
                               else None))))"
| "array_loop acc s =
     (case scan_once s of
        None \<Rightarrow> None
      | Some (v, s1) \<Rightarrow>
          (if length s1 < length s
           then (case skip_ws s1 of
                   [] \<Rightarrow> None
                 | e # s2 \<Rightarrow>
                     (if e = 93 then Some (JArr (acc @ [v]), s2)
                      else if e = 44 then array_loop (acc @ [v]) (skip_ws s2)
                      else None))
           else None))"
  by pat_completeness auto

termination
proof (relation "measure (\<lambda>x. case x of
           Inl s \<Rightarrow> 2 * length s
         | Inr (Inl (acc, s)) \<Rightarrow> 2 * length s + 1
         | Inr (Inr (acc, s)) \<Rightarrow> 2 * length s + 1)", goal_cases)
  case 1
  show ?case by simp
next
  case (2 c cs d ds)
  then show ?case using skip_ws_Cons_shorter [of cs d ds] by simp
next
  case (3 c cs d ds)
  then show ?case using skip_ws_Cons_shorter [of cs d ds] by simp
next
  case (4 acc q s1 x2 key s2 col s3)
  then have "length s2 < length s1" by (auto dest: scanstring_shorter)
  moreover have "length s3 < length s2" using 4 by (auto dest: skip_ws_Cons_shorter)
  moreover have "length (skip_ws s3) \<le> length s3" by (rule length_skip_ws)
  ultimately show ?case by simp
next
  case (5 acc q s1 x2 key s2 col s3 x2a v s4 e s5)
  then have "length s5 < length s4" by (auto dest: skip_ws_Cons_shorter)
  moreover have "length (skip_ws s5) \<le> length s5" by (rule length_skip_ws)
  ultimately show ?case using 5 by simp
next
  case (6 acc s)
  show ?case by simp
next
  case (7 acc s x2 v s1 e s2)
  then have "length s2 < length s1" by (auto dest: skip_ws_Cons_shorter)
  moreover have "length (skip_ws s2) \<le> length s2" by (rule length_skip_ws)
  ultimately show ?case using 7 by simp
qed

declare array_loop.simps [simp del]

text \<open>
  \<^verbatim>\<open>json.loads(s)\<close> for a \<^verbatim>\<open>str\<close>: a leading byte order mark is refused, whitespace
  may surround the value, and nothing else may follow it.
\<close>

definition json_loads :: "pystr \<Rightarrow> py_error + json" where
  "json_loads s =
     (if startswith s [65279] then Inl JSONDecodeError
      else case scan_once (skip_ws s) of
             None \<Rightarrow> Inl JSONDecodeError
           | Some (v, r) \<Rightarrow> if skip_ws r = [] then Inr v else Inl JSONDecodeError)"

subsection \<open>The encoder\<close>

text \<open>\<^verbatim>\<open>sep.join(xs)\<close>.\<close>

fun join :: "pystr \<Rightarrow> pystr list \<Rightarrow> pystr" where
  "join sep [] = []"
| "join sep [x] = x"
| "join sep (x # y # ys) = x @ sep @ join sep (y # ys)"

text \<open>The decimal text of an integer.\<close>

function nat_repr :: "nat \<Rightarrow> pystr" where
  "nat_repr n = (if n < 10 then [48 + n] else nat_repr (n div 10) @ [48 + n mod 10])"
  by pat_completeness auto
termination
  by (relation "measure (\<lambda>n. n)") auto

declare nat_repr.simps [simp del]

definition int_repr :: "int \<Rightarrow> pystr" where
  "int_repr i = (if i < 0 then 45 # nat_repr (nat (- i)) else nat_repr (nat i))"

definition hex_digit :: "nat \<Rightarrow> codepoint" where
  "hex_digit d = (if d < 10 then 48 + d else 87 + d)"

text \<open>
  \<^verbatim>\<open>encode_basestring\<close>, the string encoder under \<^verbatim>\<open>ensure_ascii=False\<close>: only the
  double quote, the backslash and the control characters are escaped.
\<close>

definition escape_char :: "codepoint \<Rightarrow> pystr" where
  "escape_char c =
     (if c = 92 then [92, 92]
      else if c = 34 then [92, 34]
      else if c = 8 then [92, 98]
      else if c = 12 then [92, 102]
      else if c = 10 then [92, 110]
      else if c = 13 then [92, 114]
      else if c = 9 then [92, 116]
      else if c < 32 then [92, 117, 48, 48, hex_digit (c div 16), hex_digit (c mod 16)]
      else [c])"

definition encode_basestring :: "pystr \<Rightarrow> pystr" where
  "encode_basestring s = [34] @ concat (map escape_char s) @ [34]"

text \<open>
  \<^verbatim>\<open>floatstr\<close> of the encoder, with \<^verbatim>\<open>allow_nan\<close> at its default: the three
  non-finite floats are printed as the constants they are read from, every other float
  as \<^verbatim>\<open>float.__repr__\<close> prints it.
\<close>

definition floatstr :: "(pystr \<Rightarrow> pystr) \<Rightarrow> pystr \<Rightarrow> pystr" where
  "floatstr float_repr l =
     (if l = str ''NaN'' \<or> l = str ''Infinity'' \<or> l = str ''-Infinity'' then l
      else float_repr l)"

text \<open>
  \<^verbatim>\<open>json.dumps(v, ensure_ascii=False)\<close> with the default separators \<^verbatim>\<open>", "\<close> and
  \<^verbatim>\<open>": "\<close>.
\<close>

fun json_dumps :: "(pystr \<Rightarrow> pystr) \<Rightarrow> json \<Rightarrow> pystr" where
  "json_dumps float_repr JNull = str ''null''"
| "json_dumps float_repr (JBool b) = (if b then str ''true'' else str ''false'')"
| "json_dumps float_repr (JInt i) = int_repr i"
| "json_dumps float_repr (JFloat l) = floatstr float_repr l"
| "json_dumps float_repr (JStr t) = encode_basestring t"
| "json_dumps float_repr (JArr vs) =
     [91] @ join [44, 32] (map (json_dumps float_repr) vs) @ [93]"
| "json_dumps float_repr (JObj kvs) =
     [123] @ join [44, 32]
        (map (\<lambda>kv. encode_basestring (fst kv) @ [58, 32] @ json_dumps float_repr (snd kv)) kvs)
      @ [125]"

subsection \<open>Valid JSON text\<close>

text \<open>
  \<^verbatim>\<open>json.loads\<close> accepts JSON and, beyond JSON, the constants \<^verbatim>\<open>NaN\<close>,
  \<^verbatim>\<open>Infinity\<close> and \<^verbatim>\<open>-Infinity\<close>.  So a text is valid JSON when the decoder
  accepts it and the decoded value holds none of the three non-finite floats.
\<close>

fun finite_json :: "json \<Rightarrow> bool" where
  "finite_json (JFloat l) = (l \<noteq> str ''NaN'' \<and> l \<noteq> str ''Infinity'' \<and> l \<noteq> str ''-Infinity'')"
| "finite_json (JArr vs) = list_all finite_json vs"
| "finite_json (JObj kvs) = list_all (\<lambda>kv. finite_json (snd kv)) kvs"
| "finite_json v = True"

definition valid_json_text :: "pystr \<Rightarrow> bool" where
  "valid_json_text t = (case json_loads t of Inr v \<Rightarrow> finite_json v | Inl e \<Rightarrow> False)"

text \<open>
  Inside an array or an object a value is followed by a comma or by the closing
  bracket, at the top level by nothing: \<open>delim\<close> holds of such a continuation.  The
  decoder accepts what the encoder prints only if the text printed for a float is a
  value that the decoder reads up to the continuation; \<open>valid_float_repr\<close> says this
  of the parameter \<open>float_repr\<close>.  \<open>starts_value\<close> holds of a text whose first code
  point is neither whitespace nor a closing bracket, a comma or the byte order mark.
\<close>

definition delim :: "pystr \<Rightarrow> bool" where
  "delim rest = (case rest of [] \<Rightarrow> True | c # cs \<Rightarrow> c = 44 \<or> c = 93 \<or> c = 125)"

definition valid_float_repr :: "(pystr \<Rightarrow> pystr) \<Rightarrow> bool" where
  "valid_float_repr float_repr =
     (\<forall>l rest. delim rest \<longrightarrow> (\<exists>v. scan_once (float_repr l @ rest) = Some (v, rest)))"

definition starts_value :: "pystr \<Rightarrow> bool" where
  "starts_value s =
     (case s of [] \<Rightarrow> False
      | c # cs \<Rightarrow> \<not> is_ws c \<and> c \<noteq> 93 \<and> c \<noteq> 125 \<and> c \<noteq> 44 \<and> c \<noteq> 65279)"

section \<open>The protocol objects\<close>

text \<open>
  The classes of \<^verbatim>\<open>vllm.entrypoints.openai.protocol\<close> that the parsers build, with the
  fields the parsers set.  \<^verbatim>\<open>FunctionCall\<close> is the call record of the specification
  (a name and the arguments as JSON text); the streaming parsers pass the same two
  fields through \<^verbatim>\<open>DeltaFunctionCall\<close>.
\<close>

record FunctionCall =
  fc_name :: pystr
  fc_arguments :: pystr

record ToolCall =
  tc_type :: pystr
  tc_function :: FunctionCall

record ExtractedToolCallInformation =
  tools_called :: bool
  tool_calls :: "ToolCall list"
  content :: "pystr option"

record DeltaToolCall =
  dtc_index :: nat
  dtc_type :: pystr
  dtc_id :: pystr
  dtc_function :: FunctionCall

record DeltaMessage =
  delta_content :: "pystr option"
  delta_tool_calls :: "DeltaToolCall list"

text \<open>
  Modelled from the spec: the constructors \<^verbatim>\<open>FunctionCall\<close> and \<^verbatim>\<open>DeltaFunctionCall\<close>
  and the validation they run are not in the source files at hand.  By the
  specification (4.4, Call Record Builder) building a call record from a raw name and
  the serialised arguments fails with \<^verbatim>\<open>MalformedCallError\<close> if the raw name is not a
  string or is empty.
\<close>

fun new_FunctionCall :: "json \<Rightarrow> pystr \<Rightarrow> py_error + FunctionCall" where
  "new_FunctionCall (JStr n) args =
     (if n = [] then Inl MalformedCallError
      else Inr \<lparr>fc_name = n, fc_arguments = args\<rparr>)"
| "new_FunctionCall v args = Inl MalformedCallError"

text \<open>
  What both parsers do with the text of one candidate span, inside their
  \<^verbatim>\<open>try\<close>: decode it, read the name and the arguments (under the key \<open>args_key\<close>)
  from the decoded object, serialise the arguments and build the call record.  Any
  exception of these steps is the result \<open>Inl\<close>.
\<close>

definition parse_call :: "(pystr \<Rightarrow> pystr) \<Rightarrow> pystr \<Rightarrow> json \<Rightarrow> py_error + FunctionCall" where
  "parse_call float_repr args_key call_obj =
     (case getitem call_obj (str ''name'') of
        Inl e \<Rightarrow> Inl e
      | Inr n \<Rightarrow>
          (case getitem call_obj args_key of
             Inl e \<Rightarrow> Inl e
           | Inr a \<Rightarrow> new_FunctionCall n (json_dumps float_repr a)))"

definition decode_call :: "(pystr \<Rightarrow> pystr) \<Rightarrow> pystr \<Rightarrow> pystr \<Rightarrow> py_error + ToolCall" where
  "decode_call float_repr args_key json_str =
     (case json_loads json_str of
        Inl e \<Rightarrow> Inl e
      | Inr call_obj \<Rightarrow>
          (case parse_call float_repr args_key call_obj of
             Inl e \<Rightarrow> Inl e
           | Inr f \<Rightarrow> Inr \<lparr>tc_type = str ''function'', tc_function = f\<rparr>))"

section \<open>The DeepSeek R1 parser (tag-delimited)\<close>

definition calls_begin :: pystr where
  "calls_begin = [60, 65372] @ str ''tool'' @ [9601] @ str ''call'' @ [9601] @ str ''begin''
                 @ [65372, 62]"

definition calls_end :: pystr where
  "calls_end = [60, 65372] @ str ''tool'' @ [9601] @ str ''call'' @ [9601] @ str ''end''
               @ [65372, 62]"

definition call_begin :: pystr where
  "call_begin = calls_begin"

definition call_end :: pystr where
  "call_end = calls_end"

definition tool_call_block_re :: "node list" where
  "tool_call_block_re =
     escape call_begin @ [GroupOpen, StarLazy Dot, GroupClose] @ escape call_end"

text \<open>
  The loop of \<^verbatim>\<open>extract_tool_calls\<close> over the texts of the blocks; \<open>calls\<close> is the
  list \<^verbatim>\<open>tool_calls\<close> built so far.
\<close>

fun deepseek_loop :: "(pystr \<Rightarrow> pystr) \<Rightarrow> pystr list \<Rightarrow> ToolCall list \<Rightarrow> ToolCall list" where
  "deepseek_loop float_repr [] calls = calls"
| "deepseek_loop float_repr (match # matches) calls =
     (let json_str = strip match
      in if json_str = [] then deepseek_loop float_repr matches calls
         else (case decode_call float_repr (str ''parameters'') json_str of
                 Inr tc \<Rightarrow> deepseek_loop float_repr matches (calls @ [tc])
               | Inl e \<Rightarrow> deepseek_loop float_repr matches calls))"

text \<open>
  \<^verbatim>\<open>DeepSeekR1ToolParser.extract_tool_calls\<close>.  The request is not used.  The body of
  the outer \<^verbatim>\<open>try\<close> is \<open>deepseek_extract_body\<close>; the outer handler returns the
  text unchanged.
\<close>

definition deepseek_extract_body ::
  "(pystr \<Rightarrow> pystr) \<Rightarrow> pystr \<Rightarrow> py_error + ExtractedToolCallInformation" where
  "deepseek_extract_body float_repr model_output =
     (let calls = deepseek_loop float_repr (findall tool_call_block_re model_output) []
      in case split_head model_output calls_begin of
           Inl e \<Rightarrow> Inl e
         | Inr h \<Rightarrow>
             (let c = strip h
              in Inr \<lparr>tools_called = (calls \<noteq> []),
                      tool_calls = calls,
                      content = (if c \<noteq> [] then Some c else None)\<rparr>))"

definition deepseek_extract_tool_calls ::
  "(pystr \<Rightarrow> pystr) \<Rightarrow> pystr \<Rightarrow> ExtractedToolCallInformation" where
  "deepseek_extract_tool_calls float_repr model_output =
     (if \<not> contains calls_begin model_output
      then \<lparr>tools_called = False, tool_calls = [], content = Some model_output\<rparr>
      else case deepseek_extract_body float_repr model_output of
             Inr r \<Rightarrow> r
           | Inl e \<Rightarrow> \<lparr>tools_called = False, tool_calls = [], content = Some model_output\<rparr>)"

text \<open>
  \<^verbatim>\<open>DeepSeekR1ToolParser.extract_tool_calls_streaming\<close>.  The token ids and the
  request are not used.  \<^verbatim>\<open>random_tool_call_id\<close> is not in the source files at hand:
  it is the parameter \<open>gen\<close>, a function from the state of the generator to the id
  and the next state.  Python evaluates the keyword arguments of \<^verbatim>\<open>DeltaToolCall\<close>
  from left to right, so the id is drawn as soon as the JSON is decoded, before the
  name is looked up.
\<close>

definition deepseek_extract_tool_calls_streaming ::
  "(pystr \<Rightarrow> pystr) \<Rightarrow> ('g \<Rightarrow> pystr \<times> 'g) \<Rightarrow> 'g \<Rightarrow> pystr \<Rightarrow> pystr \<Rightarrow> pystr
     \<Rightarrow> DeltaMessage option \<times> 'g" where
  "deepseek_extract_tool_calls_streaming float_repr gen g previous_text current_text delta_text =
     (let matches = finditer tool_call_block_re current_text
      in if matches = []
         then (Some \<lparr>delta_content = Some delta_text, delta_tool_calls = []\<rparr>, g)
         else (let json_str = strip (group1 (last matches))
               in if json_str = [] then (None, g)
                  else (case json_loads json_str of
                          Inl e \<Rightarrow> (None, g)
                        | Inr call_obj \<Rightarrow>
                            (let (new_id, g') = gen g
                             in case parse_call float_repr (str ''parameters'') call_obj of
                                  Inl e \<Rightarrow> (None, g')
                                | Inr f \<Rightarrow>
                                    (Some \<lparr>delta_content = None,
                                           delta_tool_calls =
                                             [\<lparr>dtc_index = 0,
                                               dtc_type = str ''function'',
                                               dtc_id = new_id,
                                               dtc_function = f\<rparr>]\<rparr>,
                                     g')))))"

text \<open>
  Modelled from the spec: the loop that calls the extractor during a streaming session
  is not in the source files at hand.  A session is a list of steps, each with its
  previous text, current text and delta text, run in order; each step starts from the
  state in which the step before left the generator.  The texts of the steps are
  arbitrary here; in a session of the server each current text is the previous text
  followed by the delta text.
\<close>

fun deepseek_steps ::
  "(pystr \<Rightarrow> pystr) \<Rightarrow> ('g \<Rightarrow> pystr \<times> 'g) \<Rightarrow> 'g \<Rightarrow> (pystr \<times> pystr \<times> pystr) list
     \<Rightarrow> DeltaMessage option list" where
  "deepseek_steps float_repr gen g [] = []"
| "deepseek_steps float_repr gen g ((previous_text, current_text, delta_text) # steps) =
     (let (out, g') = deepseek_extract_tool_calls_streaming float_repr gen g
                        previous_text current_text delta_text
      in out # deepseek_steps float_repr gen g' steps)"

text \<open>The ids of the call events of one step's output.\<close>

fun event_ids :: "DeltaMessage option \<Rightarrow> pystr list" where
  "event_ids None = []"
| "event_ids (Some msg) = map dtc_id (delta_tool_calls msg)"

text \<open>
  The contract of the generator (``a fresh unique string''): the ids it yields from the
  state \<open>g\<close> on are pairwise different.
\<close>

definition fresh_ids :: "('g \<Rightarrow> pystr \<times> 'g) \<Rightarrow> 'g \<Rightarrow> bool" where
  "fresh_ids gen g =
     (\<forall>i j. i \<noteq> j \<longrightarrow>
        fst (gen (((snd \<circ> gen) ^^ i) g)) \<noteq> fst (gen (((snd \<circ> gen) ^^ j) g)))"

section \<open>The Phi-4 reasoning parser (implicit JSON)\<close>

definition TOOL_CALL_REGEX :: "node list" where
  "TOOL_CALL_REGEX =
     [One (Lit 123), Star Space] @ escape (str ''\"name\"'')
     @ [Star Space, One (Lit 58), Star Space, One (Lit 34), StarLazy Dot, One (Lit 34),
        Star Space, One (Lit 44), Star Space] @ escape (str ''\"arguments\"'')
     @ [Star Space, One (Lit 58), Star Space, StarLazy Dot, One (Lit 125)]"

fun phi4_loop :: "(pystr \<Rightarrow> pystr) \<Rightarrow> pystr list \<Rightarrow> ToolCall list \<Rightarrow> ToolCall list" where
  "phi4_loop float_repr [] calls = calls"
| "phi4_loop float_repr (match # matches) calls =
     (case decode_call float_repr (str ''arguments'') match of
        Inr tc \<Rightarrow> phi4_loop float_repr matches (calls @ [tc])
      | Inl e \<Rightarrow> phi4_loop float_repr matches calls)"

text \<open>
  \<^verbatim>\<open>Phi4ReasoningToolParser.extract_tool_calls\<close>.  There is no handler around
  \<^verbatim>\<open>model_output.split(matches[0])\<close>, so its \<^verbatim>\<open>ValueError\<close> would leave the function.
\<close>

definition phi4_extract_tool_calls ::
  "(pystr \<Rightarrow> pystr) \<Rightarrow> pystr \<Rightarrow> py_error + ExtractedToolCallInformation" where
  "phi4_extract_tool_calls float_repr model_output =
     (let matches = findall TOOL_CALL_REGEX model_output;
          calls = phi4_loop float_repr matches []
      in case (case matches of
                 [] \<Rightarrow> Inr model_output
               | m0 # ms \<Rightarrow>
                   (case split_head model_output m0 of
                      Inl e \<Rightarrow> Inl e
                    | Inr h \<Rightarrow> Inr (strip h))) of
           Inl e \<Rightarrow> Inl e
         | Inr c \<Rightarrow>
             Inr \<lparr>tools_called = (calls \<noteq> []),
                  tool_calls = calls,
                  content = Some (if calls \<noteq> [] then c else model_output)\<rparr>)"

text \<open>
  \<^verbatim>\<open>Phi4ReasoningToolParser.extract_tool_calls_streaming\<close>.  The id is a constant of
  the source.
\<close>

definition phi4_extract_tool_calls_streaming ::
  "(pystr \<Rightarrow> pystr) \<Rightarrow> pystr \<Rightarrow> pystr \<Rightarrow> pystr \<Rightarrow> DeltaMessage option" where
  "phi4_extract_tool_calls_streaming float_repr previous_text current_text delta_text =
     (let matches = findall TOOL_CALL_REGEX current_text
      in if matches = []
         then Some \<lparr>delta_content = Some delta_text, delta_tool_calls = []\<rparr>
         else (case json_loads (last matches) of
                 Inl e \<Rightarrow> None
               | Inr call \<Rightarrow>
                   (case parse_call float_repr (str ''arguments'') call of
                      Inl e \<Rightarrow> None
                    | Inr f \<Rightarrow>
                        Some \<lparr>delta_content = None,
                              delta_tool_calls =
                                [\<lparr>dtc_index = length matches - 1,
                                  dtc_type = str ''function'',
                                  dtc_id = str ''phi4_tool_call_stream'',
                                  dtc_function = f\<rparr>]\<rparr>)))"

section \<open>An id generator for the examples\<close>

text \<open>
  The examples need some generator for \<open>gen\<close>: this one numbers the ids, and its
  state is the next number.
\<close>

definition counter_gen :: "nat \<Rightarrow> pystr \<times> nat" where
  "counter_gen n = (str ''call-'' @ nat_repr n, Suc n)"

section \<open>The texts of the examples\<close>

text \<open>
  A tagged block and an implicit object for a call of \<^verbatim>\<open>f\<close>, and one of each for a
  call of \<^verbatim>\<open>g\<close>.
\<close>

definition call_f_block :: pystr where
  \<open>call_f_block = calls_begin @ str ''{"name": "f", "parameters": {"a": 1}}'' @ calls_end\<close>

definition call_g_block :: pystr where
  \<open>call_g_block = calls_begin @ str ''{"name": "g", "parameters": [2]}'' @ calls_end\<close>

definition call_f_object :: pystr where
  \<open>call_f_object = str ''{"name": "f", "arguments": 1}''\<close>

definition call_g_object :: pystr where
  \<open>call_g_object = str '' {"name": "g", "arguments": [2]}''\<close>

text \<open>A \<open>float_repr\<close> for the examples: it prints every float as \<^verbatim>\<open>0.5\<close>.\<close>

definition sample_float_repr :: "pystr \<Rightarrow> pystr" where
  "sample_float_repr l = str ''0.5''"

section \<open>Evaluation on concrete inputs\<close>

text \<open>The defining equations that the simplifier needs to run the model on a given text.\<close>

lemmas text_eval = str_def isspace_def strip_def lstrip_def rstrip_def split_head_def

lemmas regex_eval = findall_def finditer_def escape_def finditer_from.simps

lemmas json_eval = json_loads_def skip_ws_def is_ws_def is_digit_def hex_val_def digits_val_def
  match_number_def scan_constant_def array_loop.simps int_repr_def nat_repr.simps hex_digit_def
  escape_char_def encode_basestring_def floatstr_def

lemmas call_eval = parse_call_def decode_call_def

lemmas deepseek_eval = calls_begin_def calls_end_def call_begin_def call_end_def
  tool_call_block_re_def deepseek_extract_tool_calls_def deepseek_extract_body_def
  deepseek_extract_tool_calls_streaming_def

lemmas phi4_eval = TOOL_CALL_REGEX_def phi4_extract_tool_calls_def
  phi4_extract_tool_calls_streaming_def

lemmas example_eval = call_f_block_def call_g_block_def call_f_object_def call_g_object_def
  counter_gen_def

lemmas step_eval = example_eval text_eval regex_eval json_eval call_eval deepseek_eval phi4_eval

section \<open>Matches are never empty\<close>

lemma finditer_from_group0_nonempty:
  "m \<in> set (finditer_from p i s) \<Longrightarrow> group0 m \<noteq> []"
proof (induction p i s rule: finditer_from.induct)
  case (1 p i s)
  show ?case
  proof (cases "rmatch p s ([], [])")
    case None
    show ?thesis
    proof (cases s)
      case Nil
      with None 1(3) show ?thesis by (simp add: finditer_from.simps [of p i "[]"])
    next
      case (Cons c cs)
      with None 1(3) have "m \<in> set (finditer_from p (Suc i) cs)"
        by (simp add: finditer_from.simps [of p i "c # cs"])
      with 1(1) [OF None Cons] show ?thesis .
    qed
  next
    case (Some a)
    obtain go gc r where a: "a = ((go, gc), r)" by (metis prod.exhaust)
    show ?thesis
    proof (cases "length r < length s")
      case True
      with Some a 1(3) have
        "m = \<lparr>m_start = i, group0 = take (length s - length r) s,
              group1 = take (length go - length gc) go\<rparr>
         \<or> m \<in> set (finditer_from p (i + (length s - length r)) r)"
        by (simp add: finditer_from.simps [of p i s])
      then show ?thesis
      proof
        assume "m = \<lparr>m_start = i, group0 = take (length s - length r) s,
              group1 = take (length go - length gc) go\<rparr>"
        with True show ?thesis by auto
      next
        assume "m \<in> set (finditer_from p (i + (length s - length r)) r)"
        with 1(2) [OF Some [unfolded a] refl refl True] show ?thesis .
      qed
    next
      case False
      with Some a 1(3) show ?thesis by (simp add: finditer_from.simps [of p i s])
    qed
  qed
qed

lemma TOOL_CALL_REGEX_no_group: "GroupOpen \<notin> set TOOL_CALL_REGEX"
  by (auto simp: TOOL_CALL_REGEX_def escape_def)

lemma findall_TOOL_CALL_REGEX_nonempty:
  "m \<in> set (findall TOOL_CALL_REGEX s) \<Longrightarrow> m \<noteq> []"
  by (auto simp: findall_def finditer_def TOOL_CALL_REGEX_no_group
           dest: finditer_from_group0_nonempty)

text \<open>
  So \<^verbatim>\<open>model_output.split(matches[0])\<close> never raises, and the Phi-4 extraction always
  returns a result.
\<close>

lemma phi4_extract_tool_calls_eq:
  "phi4_extract_tool_calls float_repr s =
     (let matches = findall TOOL_CALL_REGEX s;
          calls = phi4_loop float_repr matches []
      in Inr \<lparr>tools_called = (calls \<noteq> []),
              tool_calls = calls,
              content = Some (if calls \<noteq> []
                              then strip (before_first (hd matches) s) else s)\<rparr>)"
proof (cases "findall TOOL_CALL_REGEX s")
  case Nil
  then show ?thesis by (simp add: phi4_extract_tool_calls_def)
next
  case (Cons m0 ms)
  then have "m0 \<noteq> []" using findall_TOOL_CALL_REGEX_nonempty [of m0 s] by simp
  with Cons show ?thesis
    by (simp add: phi4_extract_tool_calls_def split_head_def Let_def)
qed

section \<open>Non-streaming extraction: no call syntax, and the flag\<close>

text \<open>
  Claim C5.  When the begin marker does not occur in the text, the tag-delimited
  extractor returns \<open>tools_called = False\<close>, no calls and the full original text as
  content; when the structural pattern has no match in the text, the implicit-JSON
  extractor returns the same.
\<close>

theorem no_call_syntax_returns_text:
  "(\<not> contains calls_begin s \<longrightarrow>
      deepseek_extract_tool_calls float_repr s =
        \<lparr>tools_called = False, tool_calls = [], content = Some s\<rparr>)
   \<and> (findall TOOL_CALL_REGEX s = [] \<longrightarrow>
      phi4_extract_tool_calls float_repr s =
        Inr \<lparr>tools_called = False, tool_calls = [], content = Some s\<rparr>)"
  by (simp add: deepseek_extract_tool_calls_def phi4_extract_tool_calls_def)

text \<open>The text \<^verbatim>\<open>plain text\<close> has neither the marker nor a match.\<close>

theorem no_call_syntax_returns_text_witness:
  "\<not> contains calls_begin (str ''plain text'')
   \<and> deepseek_extract_tool_calls id (str ''plain text'') =
        \<lparr>tools_called = False, tool_calls = [], content = Some (str ''plain text'')\<rparr>
   \<and> findall TOOL_CALL_REGEX (str ''plain text'') = []
   \<and> phi4_extract_tool_calls id (str ''plain text'') =
        Inr \<lparr>tools_called = False, tool_calls = [], content = Some (str ''plain text'')\<rparr>"
proof -
  have a: "\<not> contains calls_begin (str ''plain text'')"
    by (simp add: text_eval deepseek_eval)
  have b: "findall TOOL_CALL_REGEX (str ''plain text'') = []"
    by (simp add: text_eval regex_eval TOOL_CALL_REGEX_def)
  show ?thesis
    using a b no_call_syntax_returns_text [of "str ''plain text''" id] by simp
qed

text \<open>
  Claim C6.  For every text, the result of either non-streaming extractor has
  \<open>tools_called\<close> true if and only if its list of calls is not empty.  (The
  implicit-JSON extractor always returns a result.)
\<close>

theorem tools_called_iff_calls:
  "(tools_called (deepseek_extract_tool_calls float_repr s)
      \<longleftrightarrow> tool_calls (deepseek_extract_tool_calls float_repr s) \<noteq> [])
   \<and> (\<exists>r. phi4_extract_tool_calls float_repr s = Inr r
          \<and> (tools_called r \<longleftrightarrow> tool_calls r \<noteq> []))"
proof
  show "tools_called (deepseek_extract_tool_calls float_repr s)
      \<longleftrightarrow> tool_calls (deepseek_extract_tool_calls float_repr s) \<noteq> []"
    by (simp add: deepseek_extract_tool_calls_def deepseek_extract_body_def split_head_def
          Let_def calls_begin_def str_def)
  show "\<exists>r. phi4_extract_tool_calls float_repr s = Inr r
          \<and> (tools_called r \<longleftrightarrow> tool_calls r \<noteq> [])"
    by (simp add: phi4_extract_tool_calls_eq Let_def)
qed

section \<open>The loops over the candidate spans\<close>

text \<open>A pattern that starts with a literal matches only where the literal is.\<close>

lemma rmatch_escape:
  "rmatch (escape b @ p) s g =
     (if startswith s b then rmatch p (drop (length b) s) g else None)"
proof (induction b arbitrary: s)
  case Nil
  show ?case by (simp add: escape_def)
next
  case (Cons a b)
  then show ?case by (cases s) (auto simp: escape_def)
qed

lemma finditer_from_escape_absent:
  "\<not> contains b s \<Longrightarrow> finditer_from (escape b @ p) i s = []"
proof (induction s arbitrary: i)
  case Nil
  then have "\<not> startswith [] b" by (cases b) auto
  then show ?case by (simp add: finditer_from.simps [of _ i "[]"] rmatch_escape)
next
  case (Cons c cs)
  then have "\<not> startswith (c # cs) b" and "\<not> contains b cs" by auto
  with Cons.IH [of "Suc i"] show ?case
    by (simp add: finditer_from.simps [of _ i "c # cs"] rmatch_escape)
qed

lemma findall_tool_call_block_re_absent:
  "\<not> contains calls_begin s \<Longrightarrow> findall tool_call_block_re s = []"
  by (simp add: findall_def finditer_def tool_call_block_re_def call_begin_def
        finditer_from_escape_absent)

lemma calls_begin_nonempty: "calls_begin \<noteq> []"
  by (simp add: calls_begin_def)

lemma decode_call_empty: "decode_call float_repr k [] = Inl JSONDecodeError"
  by (simp add: decode_call_def json_loads_def skip_ws_def)

lemma deepseek_loop_map_filter:
  "deepseek_loop float_repr ms calls =
     calls @ List.map_filter
        (\<lambda>m. case decode_call float_repr (str ''parameters'') (strip m) of
               Inr tc \<Rightarrow> Some tc | Inl e \<Rightarrow> None) ms"
proof (induction ms arbitrary: calls)
  case Nil
  show ?case by (simp add: List.map_filter_simps)
next
  case (Cons m ms)
  show ?case
  proof (cases "strip m = []")
    case True
    with Cons show ?thesis
      by (simp add: List.map_filter_simps decode_call_empty)
  next
    case False
    with Cons show ?thesis
      by (simp add: List.map_filter_simps Let_def split: sum.splits)
  qed
qed

lemma phi4_loop_map_filter:
  "phi4_loop float_repr ms calls =
     calls @ List.map_filter
        (\<lambda>m. case decode_call float_repr (str ''arguments'') m of
               Inr tc \<Rightarrow> Some tc | Inl e \<Rightarrow> None) ms"
proof (induction ms arbitrary: calls)
  case Nil
  show ?case by (simp add: List.map_filter_simps)
next
  case (Cons m ms)
  then show ?case by (simp add: List.map_filter_simps split: sum.splits)
qed

lemma deepseek_tool_calls:
  "tool_calls (deepseek_extract_tool_calls float_repr s) =
     deepseek_loop float_repr (findall tool_call_block_re s) []"
proof (cases "contains calls_begin s")
  case True
  then show ?thesis
    by (simp add: deepseek_extract_tool_calls_def deepseek_extract_body_def split_head_def
          calls_begin_nonempty Let_def)
next
  case False
  then show ?thesis
    by (simp add: deepseek_extract_tool_calls_def findall_tool_call_block_re_absent)
qed

section \<open>Malformed spans\<close>

text \<open>
  Claim C7.  A span whose JSON does not decode, or whose decoded object lacks the name
  field or the arguments field (\<^verbatim>\<open>parameters\<close> for the tag-delimited extractor,
  \<^verbatim>\<open>arguments\<close> for the implicit-JSON one), gives no call record and does not stop the
  extraction: the calls of the result are exactly the records of the decodable spans,
  in the order of the spans in the text.
\<close>

theorem malformed_spans_skipped:
  "tool_calls (deepseek_extract_tool_calls float_repr s) =
     List.map_filter
       (\<lambda>m. case decode_call float_repr (str ''parameters'') (strip m) of
              Inr tc \<Rightarrow> Some tc | Inl e \<Rightarrow> None)
       (findall tool_call_block_re s)
   \<and> (\<exists>r. phi4_extract_tool_calls float_repr s = Inr r
        \<and> tool_calls r =
            List.map_filter
              (\<lambda>m. case decode_call float_repr (str ''arguments'') m of
                     Inr tc \<Rightarrow> Some tc | Inl e \<Rightarrow> None)
              (findall TOOL_CALL_REGEX s))
   \<and> (isl (json_loads t) \<longrightarrow> isl (decode_call float_repr k t))
   \<and> (\<forall>obj. json_loads t = Inr obj
         \<and> (isl (getitem obj (str ''name'')) \<or> isl (getitem obj k))
         \<longrightarrow> isl (decode_call float_repr k t))"
proof (intro conjI)
  show "tool_calls (deepseek_extract_tool_calls float_repr s) =
     List.map_filter
       (\<lambda>m. case decode_call float_repr (str ''parameters'') (strip m) of
              Inr tc \<Rightarrow> Some tc | Inl e \<Rightarrow> None)
       (findall tool_call_block_re s)"
    by (simp add: deepseek_tool_calls deepseek_loop_map_filter)
  show "\<exists>r. phi4_extract_tool_calls float_repr s = Inr r
        \<and> tool_calls r =
            List.map_filter
              (\<lambda>m. case decode_call float_repr (str ''arguments'') m of
                     Inr tc \<Rightarrow> Some tc | Inl e \<Rightarrow> None)
              (findall TOOL_CALL_REGEX s)"
    by (simp add: phi4_extract_tool_calls_eq Let_def phi4_loop_map_filter)
  show "isl (json_loads t) \<longrightarrow> isl (decode_call float_repr k t)"
    by (auto simp: decode_call_def split: sum.splits)
  show "\<forall>obj. json_loads t = Inr obj
         \<and> (isl (getitem obj (str ''name'')) \<or> isl (getitem obj k))
         \<longrightarrow> isl (decode_call float_repr k t)"
    by (auto simp: decode_call_def parse_call_def split: sum.splits)
qed

text \<open>
  Four tagged blocks of which the second lacks \<^verbatim>\<open>parameters\<close> and the third is not
  JSON; three implicit objects of which the second is cut at its inner brace.
\<close>

theorem malformed_spans_skipped_witness:
  \<open>tool_calls (deepseek_extract_tool_calls id
       (calls_begin @ str ''{"name": "f", "parameters": {"a": 1}}'' @ calls_end
        @ calls_begin @ str ''{"name": "h"}'' @ calls_end
        @ calls_begin @ str ''oops'' @ calls_end
        @ calls_begin @ str ''{"name": "g", "parameters": []}'' @ calls_end)) =
     [\<lparr>tc_type = str ''function'',
       tc_function = \<lparr>fc_name = str ''f'', fc_arguments = str ''{"a": 1}''\<rparr>\<rparr>,
      \<lparr>tc_type = str ''function'',
       tc_function = \<lparr>fc_name = str ''g'', fc_arguments = str ''[]''\<rparr>\<rparr>]
   \<and> (\<exists>r. phi4_extract_tool_calls id
         (str ''{"name": "f", "arguments": 1} {"name": "g", "arguments": {"a": 1}} {"name": "h", "arguments": [2]}'')
           = Inr r
        \<and> tool_calls r =
            [\<lparr>tc_type = str ''function'',
              tc_function = \<lparr>fc_name = str ''f'', fc_arguments = str ''1''\<rparr>\<rparr>,
             \<lparr>tc_type = str ''function'',
              tc_function = \<lparr>fc_name = str ''h'', fc_arguments = str ''[2]''\<rparr>\<rparr>])
   \<and> isl (json_loads (str ''oops''))
   \<and> isl (decode_call id (str ''parameters'') (str ''oops''))
   \<and> json_loads (str ''{"name": "h"}'') = Inr (JObj [(str ''name'', JStr (str ''h''))])
   \<and> isl (getitem (JObj [(str ''name'', JStr (str ''h''))]) (str ''parameters''))
   \<and> isl (decode_call id (str ''parameters'') (str ''{"name": "h"}''))\<close>
proof -
  have spans: \<open>findall tool_call_block_re
       (calls_begin @ str ''{"name": "f", "parameters": {"a": 1}}'' @ calls_end
        @ calls_begin @ str ''{"name": "h"}'' @ calls_end
        @ calls_begin @ str ''oops'' @ calls_end
        @ calls_begin @ str ''{"name": "g", "parameters": []}'' @ calls_end)
     = [str ''{"name": "f", "parameters": {"a": 1}}'', str ''{"name": "h"}'', str ''oops'',
        str ''{"name": "g", "parameters": []}'']\<close>
    by (simp add: text_eval regex_eval deepseek_eval)
  have matches: \<open>findall TOOL_CALL_REGEX
       (str ''{"name": "f", "arguments": 1} {"name": "g", "arguments": {"a": 1}} {"name": "h", "arguments": [2]}'')
     = [str ''{"name": "f", "arguments": 1}'', str ''{"name": "g", "arguments": {"a": 1}'',
        str ''{"name": "h", "arguments": [2]}'']\<close>
    by (simp add: text_eval regex_eval phi4_eval)
  have bad: \<open>isl (json_loads (str ''oops''))\<close>
    by (simp add: text_eval json_eval)
  have lacking: \<open>json_loads (str ''{"name": "h"}'') = Inr (JObj [(str ''name'', JStr (str ''h''))])\<close>
    by (simp add: text_eval json_eval)
  have nokey: \<open>isl (getitem (JObj [(str ''name'', JStr (str ''h''))]) (str ''parameters''))\<close>
    by (simp add: text_eval)
  note a = malformed_spans_skipped [of id
       \<open>calls_begin @ str ''{"name": "f", "parameters": {"a": 1}}'' @ calls_end
        @ calls_begin @ str ''{"name": "h"}'' @ calls_end
        @ calls_begin @ str ''oops'' @ calls_end
        @ calls_begin @ str ''{"name": "g", "parameters": []}'' @ calls_end\<close>
       \<open>str ''oops''\<close> \<open>str ''parameters''\<close>]
  note b = malformed_spans_skipped [of id
       \<open>str ''{"name": "f", "arguments": 1} {"name": "g", "arguments": {"a": 1}} {"name": "h", "arguments": [2]}''\<close>
       \<open>str ''{"name": "h"}''\<close> \<open>str ''parameters''\<close>]
  have c1: \<open>tool_calls (deepseek_extract_tool_calls id
       (calls_begin @ str ''{"name": "f", "parameters": {"a": 1}}'' @ calls_end
        @ calls_begin @ str ''{"name": "h"}'' @ calls_end
        @ calls_begin @ str ''oops'' @ calls_end
        @ calls_begin @ str ''{"name": "g", "parameters": []}'' @ calls_end)) =
     [\<lparr>tc_type = str ''function'',
       tc_function = \<lparr>fc_name = str ''f'', fc_arguments = str ''{"a": 1}''\<rparr>\<rparr>,
      \<lparr>tc_type = str ''function'',
       tc_function = \<lparr>fc_name = str ''g'', fc_arguments = str ''[]''\<rparr>\<rparr>]\<close>
    unfolding a [THEN conjunct1] spans
    by (simp add: List.map_filter_simps text_eval json_eval call_eval)
  have c2: \<open>\<exists>r. phi4_extract_tool_calls id
         (str ''{"name": "f", "arguments": 1} {"name": "g", "arguments": {"a": 1}} {"name": "h", "arguments": [2]}'')
           = Inr r
        \<and> tool_calls r =
            [\<lparr>tc_type = str ''function'',
              tc_function = \<lparr>fc_name = str ''f'', fc_arguments = str ''1''\<rparr>\<rparr>,
             \<lparr>tc_type = str ''function'',
              tc_function = \<lparr>fc_name = str ''h'', fc_arguments = str ''[2]''\<rparr>\<rparr>]\<close>
    using b [THEN conjunct2, THEN conjunct1] unfolding matches
    by (simp add: List.map_filter_simps text_eval json_eval call_eval)
  have c3: \<open>isl (decode_call id (str ''parameters'') (str ''oops''))\<close>
    using a bad by blast
  have c4: \<open>isl (decode_call id (str ''parameters'') (str ''{"name": "h"}''))\<close>
    using b lacking nokey by blast
  show ?thesis using c1 c2 bad c3 lacking nokey c4 by blast
qed

section \<open>The implicit-JSON pattern and nested objects\<close>

text \<open>
  Claim C10.  The text \<^verbatim>\<open>{"name": "f", "arguments": {"a": 1}}\<close> is one valid
  tool-call object whose arguments are an object with one key.  The pattern matches it
  only up to the first closing brace; the match is not valid JSON and is skipped, so the
  extractor returns \<open>tools_called = False\<close>, no calls and the text as content.
\<close>

theorem nested_arguments_object_not_extracted:
  \<open>json_loads (str ''{"name": "f", "arguments": {"a": 1}}'') =
      Inr (JObj [(str ''name'', JStr (str ''f'')),
                 (str ''arguments'', JObj [(str ''a'', JInt 1)])])
   \<and> findall TOOL_CALL_REGEX (str ''{"name": "f", "arguments": {"a": 1}}'') =
      [str ''{"name": "f", "arguments": {"a": 1}'']
   \<and> json_loads (str ''{"name": "f", "arguments": {"a": 1}'') = Inl JSONDecodeError
   \<and> phi4_extract_tool_calls float_repr (str ''{"name": "f", "arguments": {"a": 1}}'') =
      Inr \<lparr>tools_called = False, tool_calls = [],
           content = Some (str ''{"name": "f", "arguments": {"a": 1}}'')\<rparr>\<close>
proof (intro conjI)
  show \<open>json_loads (str ''{"name": "f", "arguments": {"a": 1}}'') =
      Inr (JObj [(str ''name'', JStr (str ''f'')),
                 (str ''arguments'', JObj [(str ''a'', JInt 1)])])\<close>
    by (simp add: text_eval json_eval)
  show \<open>findall TOOL_CALL_REGEX (str ''{"name": "f", "arguments": {"a": 1}}'') =
      [str ''{"name": "f", "arguments": {"a": 1}'']\<close>
    by (simp add: text_eval regex_eval phi4_eval)
  show \<open>json_loads (str ''{"name": "f", "arguments": {"a": 1}'') = Inl JSONDecodeError\<close>
    by (simp add: text_eval json_eval)
  show \<open>phi4_extract_tool_calls float_repr (str ''{"name": "f", "arguments": {"a": 1}}'') =
      Inr \<lparr>tools_called = False, tool_calls = [],
           content = Some (str ''{"name": "f", "arguments": {"a": 1}}'')\<rparr>\<close>
    by (simp add: text_eval regex_eval json_eval call_eval phi4_eval)
qed

section \<open>One streaming step\<close>

text \<open>
  What a step returns, by cases on the candidate spans of the current text and on the
  decoding of the last one.  Neither parser looks at the previous text, and the delta
  text is used only when there is no span.
\<close>

lemma deepseek_streaming_eq:
  "deepseek_extract_tool_calls_streaming float_repr gen g previous_text current_text delta_text =
     (if finditer tool_call_block_re current_text = []
      then (Some \<lparr>delta_content = Some delta_text, delta_tool_calls = []\<rparr>, g)
      else case json_loads (strip (group1 (last (finditer tool_call_block_re current_text)))) of
             Inl e \<Rightarrow> (None, g)
           | Inr call_obj \<Rightarrow>
               (case parse_call float_repr (str ''parameters'') call_obj of
                  Inl e \<Rightarrow> (None, snd (gen g))
                | Inr f \<Rightarrow>
                    (Some \<lparr>delta_content = None,
                           delta_tool_calls =
                             [\<lparr>dtc_index = 0, dtc_type = str ''function'',
                               dtc_id = fst (gen g), dtc_function = f\<rparr>]\<rparr>,
                     snd (gen g))))"
proof -
  have empty: "json_loads [] = Inl JSONDecodeError"
    by (simp add: json_loads_def skip_ws_def)
  show ?thesis
    by (auto simp: deepseek_extract_tool_calls_streaming_def Let_def empty case_prod_unfold
             split: sum.splits)
qed

lemma phi4_streaming_eq:
  "phi4_extract_tool_calls_streaming float_repr previous_text current_text delta_text =
     (if findall TOOL_CALL_REGEX current_text = []
      then Some \<lparr>delta_content = Some delta_text, delta_tool_calls = []\<rparr>
      else case json_loads (last (findall TOOL_CALL_REGEX current_text)) of
             Inl e \<Rightarrow> None
           | Inr call \<Rightarrow>
               (case parse_call float_repr (str ''arguments'') call of
                  Inl e \<Rightarrow> None
                | Inr f \<Rightarrow>
                    Some \<lparr>delta_content = None,
                          delta_tool_calls =
                            [\<lparr>dtc_index = length (findall TOOL_CALL_REGEX current_text) - 1,
                              dtc_type = str ''function'',
                              dtc_id = str ''phi4_tool_call_stream'',
                              dtc_function = f\<rparr>]\<rparr>))"
  by (simp add: phi4_extract_tool_calls_streaming_def Let_def)

section \<open>Streaming: the index of a call event\<close>

text \<open>
  Claim C2, as stated: whenever the current text has a candidate span and the last span
  decodes, the emitted call event carries the index (number of spans - 1).  This fails
  for the tag-delimited extractor, whose index is the constant 0 (``only one at a time in
  streaming''): with two blocks in the text it emits index 0, not 1.
\<close>

theorem streaming_call_index_counterexample:
  \<open>length (finditer tool_call_block_re (call_f_block @ call_g_block)) = 2
   \<and> json_loads (strip (group1 (last (finditer tool_call_block_re
                                          (call_f_block @ call_g_block))))) =
       Inr (JObj [(str ''name'', JStr (str ''g'')), (str ''parameters'', JArr [JInt 2])])
   \<and> fst (deepseek_extract_tool_calls_streaming id counter_gen 0 call_f_block
            (call_f_block @ call_g_block) call_g_block) =
       Some \<lparr>delta_content = None,
             delta_tool_calls =
               [\<lparr>dtc_index = 0, dtc_type = str ''function'', dtc_id = str ''call-0'',
                 dtc_function = \<lparr>fc_name = str ''g'', fc_arguments = str ''[2]''\<rparr>\<rparr>]\<rparr>
   \<and> (0::nat) \<noteq> 2 - 1\<close>
proof -
  have m: \<open>finditer tool_call_block_re (call_f_block @ call_g_block) =
     [\<lparr>m_start = 0, group0 = call_f_block,
       group1 = str ''{"name": "f", "parameters": {"a": 1}}''\<rparr>,
      \<lparr>m_start = length call_f_block, group0 = call_g_block,
       group1 = str ''{"name": "g", "parameters": [2]}''\<rparr>]\<close>
    by (simp add: step_eval)
  show ?thesis
    by (simp add: deepseek_streaming_eq m) (simp add: step_eval)
qed

text \<open>
  Claim C2, amended.  When the current text has a candidate span and the last span
  decodes into a call record, the implicit-JSON extractor emits one call event whose
  index is the number of spans in the current text minus one, and the tag-delimited
  extractor emits one call event whose index is 0.
\<close>

theorem streaming_call_index:
  "(findall TOOL_CALL_REGEX cur \<noteq> []
      \<and> json_loads (last (findall TOOL_CALL_REGEX cur)) = Inr obj
      \<and> parse_call float_repr (str ''arguments'') obj = Inr f
    \<longrightarrow> (\<exists>tc. phi4_extract_tool_calls_streaming float_repr prev cur delta =
                 Some \<lparr>delta_content = None, delta_tool_calls = [tc]\<rparr>
             \<and> dtc_index tc = length (findall TOOL_CALL_REGEX cur) - 1
             \<and> dtc_function tc = f))
   \<and> (finditer tool_call_block_re cur \<noteq> []
      \<and> json_loads (strip (group1 (last (finditer tool_call_block_re cur)))) = Inr obj'
      \<and> parse_call float_repr (str ''parameters'') obj' = Inr f'
    \<longrightarrow> (\<exists>tc. fst (deepseek_extract_tool_calls_streaming float_repr gen g prev cur delta) =
                 Some \<lparr>delta_content = None, delta_tool_calls = [tc]\<rparr>
             \<and> dtc_index tc = 0
             \<and> dtc_function tc = f'))"
  by (simp add: phi4_streaming_eq deepseek_streaming_eq)

text \<open>Two objects give the index 1; a tagged block gives the index 0.\<close>

theorem streaming_call_index_witness:
  \<open>findall TOOL_CALL_REGEX (call_f_object @ call_g_object) \<noteq> []
   \<and> json_loads (last (findall TOOL_CALL_REGEX (call_f_object @ call_g_object))) =
       Inr (JObj [(str ''name'', JStr (str ''g'')), (str ''arguments'', JArr [JInt 2])])
   \<and> parse_call id (str ''arguments'')
         (JObj [(str ''name'', JStr (str ''g'')), (str ''arguments'', JArr [JInt 2])]) =
       Inr \<lparr>fc_name = str ''g'', fc_arguments = str ''[2]''\<rparr>
   \<and> (\<exists>tc. phi4_extract_tool_calls_streaming id call_f_object
              (call_f_object @ call_g_object) call_g_object =
              Some \<lparr>delta_content = None, delta_tool_calls = [tc]\<rparr>
           \<and> dtc_index tc = length (findall TOOL_CALL_REGEX (call_f_object @ call_g_object)) - 1
           \<and> dtc_function tc = \<lparr>fc_name = str ''g'', fc_arguments = str ''[2]''\<rparr>)
   \<and> length (findall TOOL_CALL_REGEX (call_f_object @ call_g_object)) - 1 = 1
   \<and> finditer tool_call_block_re call_f_block \<noteq> []
   \<and> json_loads (strip (group1 (last (finditer tool_call_block_re call_f_block)))) =
       Inr (JObj [(str ''name'', JStr (str ''f'')),
                  (str ''parameters'', JObj [(str ''a'', JInt 1)])])
   \<and> parse_call id (str ''parameters'')
         (JObj [(str ''name'', JStr (str ''f'')),
                (str ''parameters'', JObj [(str ''a'', JInt 1)])]) =
       Inr \<lparr>fc_name = str ''f'', fc_arguments = str ''{"a": 1}''\<rparr>
   \<and> (\<exists>tc. fst (deepseek_extract_tool_calls_streaming id counter_gen 0 []
                   call_f_block call_f_block) =
              Some \<lparr>delta_content = None, delta_tool_calls = [tc]\<rparr>
           \<and> dtc_index tc = 0
           \<and> dtc_function tc = \<lparr>fc_name = str ''f'', fc_arguments = str ''{"a": 1}''\<rparr>)\<close>
proof -
  have m: \<open>findall TOOL_CALL_REGEX (call_f_object @ call_g_object) =
            [str ''{"name": "f", "arguments": 1}'', str ''{"name": "g", "arguments": [2]}'']\<close>
    by (simp add: step_eval)
  have a1: \<open>findall TOOL_CALL_REGEX (call_f_object @ call_g_object) \<noteq> []\<close>
    by (simp add: m)
  have a2: \<open>json_loads (last (findall TOOL_CALL_REGEX (call_f_object @ call_g_object))) =
       Inr (JObj [(str ''name'', JStr (str ''g'')), (str ''arguments'', JArr [JInt 2])])\<close>
    by (simp add: m) (simp add: step_eval)
  have a3: \<open>parse_call id (str ''arguments'')
         (JObj [(str ''name'', JStr (str ''g'')), (str ''arguments'', JArr [JInt 2])]) =
       Inr \<lparr>fc_name = str ''g'', fc_arguments = str ''[2]''\<rparr>\<close>
    by (simp add: step_eval)
  have a4: \<open>length (findall TOOL_CALL_REGEX (call_f_object @ call_g_object)) - 1 = 1\<close>
    by (simp add: m)
  have b1: \<open>finditer tool_call_block_re call_f_block \<noteq> []\<close>
    by (simp add: step_eval)
  have b2: \<open>json_loads (strip (group1 (last (finditer tool_call_block_re call_f_block)))) =
       Inr (JObj [(str ''name'', JStr (str ''f'')),
                  (str ''parameters'', JObj [(str ''a'', JInt 1)])])\<close>
    by (simp add: step_eval)
  have b3: \<open>parse_call id (str ''parameters'')
         (JObj [(str ''name'', JStr (str ''f'')),
                (str ''parameters'', JObj [(str ''a'', JInt 1)])]) =
       Inr \<lparr>fc_name = str ''f'', fc_arguments = str ''{"a": 1}''\<rparr>\<close>
    by (simp add: step_eval)
  note p = streaming_call_index [THEN conjunct1, rule_format, OF conjI [OF a1 conjI [OF a2 a3]],
              of call_f_object call_g_object]
  note d = streaming_call_index [THEN conjunct2, rule_format, OF conjI [OF b1 conjI [OF b2 b3]],
              of counter_gen 0 "[]" call_f_block]
  show ?thesis using a1 a2 a3 a4 b1 b2 b3 p d by blast
qed

section \<open>The ids of a streaming session\<close>

text \<open>
  A step of the tag-delimited extractor either leaves the generator as it is and emits
  no call event, or draws one id and emits at most one call event, which carries it.
  So the call events of a session carry ids of different draws.
\<close>

lemma deepseek_step_cases:
  obtains (content) "deepseek_extract_tool_calls_streaming float_repr gen g prev cur delta =
                       (Some \<lparr>delta_content = Some delta, delta_tool_calls = []\<rparr>, g)"
  | (nothing) "deepseek_extract_tool_calls_streaming float_repr gen g prev cur delta = (None, g)"
  | (drawn) "deepseek_extract_tool_calls_streaming float_repr gen g prev cur delta =
               (None, snd (gen g))"
  | (call) f where "deepseek_extract_tool_calls_streaming float_repr gen g prev cur delta =
               (Some \<lparr>delta_content = None,
                      delta_tool_calls =
                        [\<lparr>dtc_index = 0, dtc_type = str ''function'',
                          dtc_id = fst (gen g), dtc_function = f\<rparr>]\<rparr>,
                snd (gen g))"
proof (cases "finditer tool_call_block_re cur = []")
  case True
  show ?thesis by (rule content) (simp add: deepseek_streaming_eq True)
next
  case False
  show ?thesis
  proof (cases "json_loads (strip (group1 (last (finditer tool_call_block_re cur))))")
    case (Inl e)
    show ?thesis by (rule nothing) (simp add: deepseek_streaming_eq False Inl)
  next
    case (Inr call_obj)
    show ?thesis
    proof (cases "parse_call float_repr (str ''parameters'') call_obj")
      case (Inl e)
      show ?thesis
        by (rule drawn)
           (simp add: deepseek_streaming_eq False Inl
              \<open>json_loads (strip (group1 (last (finditer tool_call_block_re cur)))) = Inr call_obj\<close>)
    next
      case (Inr f)
      show ?thesis
        by (rule call [of f])
           (simp add: deepseek_streaming_eq False Inr
              \<open>json_loads (strip (group1 (last (finditer tool_call_block_re cur)))) = Inr call_obj\<close>)
    qed
  qed
qed

lemma deepseek_step_draw:
  "(snd (deepseek_extract_tool_calls_streaming float_repr gen g prev cur delta) = g
      \<and> event_ids (fst (deepseek_extract_tool_calls_streaming float_repr gen g prev cur delta)) = [])
   \<or> (snd (deepseek_extract_tool_calls_streaming float_repr gen g prev cur delta) = snd (gen g)
      \<and> set (event_ids (fst (deepseek_extract_tool_calls_streaming float_repr gen g prev cur delta)))
          \<subseteq> {fst (gen g)})"
  by (cases rule: deepseek_step_cases [of float_repr gen g prev cur delta]) simp_all

lemma deepseek_step_ids_distinct:
  "distinct (event_ids (fst (deepseek_extract_tool_calls_streaming float_repr gen g prev cur delta)))"
  by (cases rule: deepseek_step_cases [of float_repr gen g prev cur delta]) simp_all

lemma deepseek_steps_ids:
  assumes it: "\<And>k. it (Suc k) = snd (gen (it k))"
  shows "set (concat (map event_ids (deepseek_steps float_repr gen (it n) steps)))
           \<subseteq> {fst (gen (it k)) | k. n \<le> k}
         \<and> ((\<forall>i j. i \<noteq> j \<longrightarrow> fst (gen (it i)) \<noteq> fst (gen (it j))) \<longrightarrow>
              distinct (concat (map event_ids (deepseek_steps float_repr gen (it n) steps))))"
proof (induction steps arbitrary: n)
  case Nil
  show ?case by simp
next
  case (Cons step steps)
  obtain prev cur delta where step: "step = (prev, cur, delta)" by (cases step) auto
  let ?r = "deepseek_extract_tool_calls_streaming float_repr gen (it n) prev cur delta"
  let ?ids = "\<lambda>m. {fst (gen (it k)) | k. m \<le> k}"
  let ?run = "\<lambda>g. concat (map event_ids (deepseek_steps float_repr gen g steps))"
  have run: "concat (map event_ids (deepseek_steps float_repr gen (it n) (step # steps))) =
          event_ids (fst ?r) @ ?run (snd ?r)"
    by (simp add: step case_prod_unfold Let_def)
  from deepseek_step_draw [of float_repr gen "it n" prev cur delta]
  show ?case
  proof
    assume a: "snd ?r = it n \<and> event_ids (fst ?r) = []"
    then have eq: "event_ids (fst ?r) @ ?run (snd ?r) = ?run (it n)" by simp
    show ?thesis unfolding run eq by (rule Cons.IH)
  next
    assume b: "snd ?r = snd (gen (it n)) \<and> set (event_ids (fst ?r)) \<subseteq> {fst (gen (it n))}"
    then have eq: "event_ids (fst ?r) @ ?run (snd ?r) = event_ids (fst ?r) @ ?run (it (Suc n))"
      by (simp add: it)
    from Cons.IH [of "Suc n"] have sub: "set (?run (it (Suc n))) \<subseteq> ?ids (Suc n)"
      and dis: "(\<forall>i j. i \<noteq> j \<longrightarrow> fst (gen (it i)) \<noteq> fst (gen (it j)))
                  \<longrightarrow> distinct (?run (it (Suc n)))"
      by blast+
    have up: "?ids (Suc n) \<subseteq> ?ids n"
    proof
      fix x assume "x \<in> ?ids (Suc n)"
      then obtain k where "Suc n \<le> k" "x = fst (gen (it k))" by blast
      then have "n \<le> k" "x = fst (gen (it k))" by simp_all
      then show "x \<in> ?ids n" by blast
    qed
    have here: "fst (gen (it n)) \<in> ?ids n" by blast
    have s1: "set (event_ids (fst ?r) @ ?run (it (Suc n))) \<subseteq> ?ids n"
    proof -
      from b here have "set (event_ids (fst ?r)) \<subseteq> ?ids n" by blast
      moreover from sub up have "set (?run (it (Suc n))) \<subseteq> ?ids n" by blast
      ultimately show ?thesis by simp
    qed
    have s2: "distinct (event_ids (fst ?r) @ ?run (it (Suc n)))"
      if fresh: "\<forall>i j. i \<noteq> j \<longrightarrow> fst (gen (it i)) \<noteq> fst (gen (it j))"
    proof -
      have "fst (gen (it n)) \<notin> ?ids (Suc n)"
      proof
        assume "fst (gen (it n)) \<in> ?ids (Suc n)"
        then obtain k where k: "Suc n \<le> k" "fst (gen (it n)) = fst (gen (it k))"
          by blast
        from k(1) have "n \<noteq> k" by simp
        with fresh have "fst (gen (it n)) \<noteq> fst (gen (it k))" by blast
        with k(2) show False by contradiction
      qed
      with sub have "fst (gen (it n)) \<notin> set (?run (it (Suc n)))" by blast
      with b have "set (event_ids (fst ?r)) \<inter> set (?run (it (Suc n))) = {}" by blast
      moreover from dis fresh have "distinct (?run (it (Suc n)))" by blast
      moreover have "distinct (event_ids (fst ?r))" by (rule deepseek_step_ids_distinct)
      ultimately show ?thesis by simp
    qed
    from s1 s2 show ?thesis unfolding run eq by blast
  qed
qed

lemma deepseek_steps_distinct_ids:
  assumes "fresh_ids gen g"
  shows "distinct (concat (map event_ids (deepseek_steps float_repr gen g steps)))"
proof -
  define it where "it = (\<lambda>k. ((snd \<circ> gen) ^^ k) g)"
  have suc: "\<And>k. it (Suc k) = snd (gen (it k))" by (simp add: it_def)
  have zero: "it 0 = g" by (simp add: it_def)
  from assms have "\<forall>i j. i \<noteq> j \<longrightarrow> fst (gen (it i)) \<noteq> fst (gen (it j))"
    unfolding fresh_ids_def it_def .
  with deepseek_steps_ids [of it gen float_repr 0 steps, OF suc]
  have "distinct (concat (map event_ids (deepseek_steps float_repr gen (it 0) steps)))"
    by blast
  then show ?thesis unfolding zero .
qed

text \<open>The generator of the examples never repeats an id.\<close>

lemma digits_val_snoc: "digits_val (ds @ [d]) = 10 * digits_val ds + (d - 48)"
  by (simp add: digits_val_def)

lemma digits_val_nat_repr: "digits_val (nat_repr n) = n"
proof (induction n rule: nat_repr.induct)
  case (1 n)
  show ?case
  proof (cases "n < 10")
    case True
    then have "nat_repr n = [48 + n]" by (subst nat_repr.simps) simp
    then show ?thesis by (simp add: digits_val_def)
  next
    case False
    then have r: "nat_repr n = nat_repr (n div 10) @ [48 + n mod 10]"
      by (subst nat_repr.simps) simp
    from 1 [OF False] have "digits_val (nat_repr (n div 10)) = n div 10" .
    then have "digits_val (nat_repr n) = 10 * (n div 10) + n mod 10"
      unfolding r digits_val_snoc by simp
    then show ?thesis by simp
  qed
qed

lemma nat_repr_inj:
  assumes "nat_repr a = nat_repr b"
  shows "a = b"
proof -
  have "a = digits_val (nat_repr a)" by (rule digits_val_nat_repr [symmetric])
  also have "\<dots> = digits_val (nat_repr b)" unfolding assms ..
  also have "\<dots> = b" by (rule digits_val_nat_repr)
  finally show ?thesis .
qed

lemma counter_gen_iterate: "((snd \<circ> counter_gen) ^^ i) g = g + i"
proof (induction i)
  case 0
  show ?case by simp
next
  case (Suc i)
  have "((snd \<circ> counter_gen) ^^ Suc i) g = snd (counter_gen (((snd \<circ> counter_gen) ^^ i) g))"
    by simp
  also have "\<dots> = snd (counter_gen (g + i))" unfolding Suc ..
  also have "\<dots> = g + Suc i" by (simp add: counter_gen_def)
  finally show ?case .
qed

lemma fresh_counter_gen: "fresh_ids counter_gen g"
  unfolding fresh_ids_def
proof (intro allI impI notI)
  fix i j :: nat
  assume ne: "i \<noteq> j"
    and eq: "fst (counter_gen (((snd \<circ> counter_gen) ^^ i) g)) =
             fst (counter_gen (((snd \<circ> counter_gen) ^^ j) g))"
  from eq have "fst (counter_gen (g + i)) = fst (counter_gen (g + j))"
    unfolding counter_gen_iterate .
  then have "nat_repr (g + i) = nat_repr (g + j)" by (simp add: counter_gen_def)
  then have "g + i = g + j" by (rule nat_repr_inj)
  with ne show False by simp
qed

section \<open>Streaming: the id of a call event\<close>

text \<open>
  Claim C3, as stated: every call event of either extractor carries an id drawn from the
  generator, and two events never share an id.  The implicit-JSON extractor does not
  use the generator: the events for the calls of \<^verbatim>\<open>f\<close> and of \<^verbatim>\<open>g\<close> below are
  different and carry the same id.
\<close>

theorem streaming_call_ids_counterexample:
  \<open>phi4_extract_tool_calls_streaming id [] call_f_object call_f_object =
     Some \<lparr>delta_content = None,
           delta_tool_calls =
             [\<lparr>dtc_index = 0, dtc_type = str ''function'', dtc_id = str ''phi4_tool_call_stream'',
               dtc_function = \<lparr>fc_name = str ''f'', fc_arguments = str ''1''\<rparr>\<rparr>]\<rparr>
   \<and> phi4_extract_tool_calls_streaming id call_f_object (call_f_object @ call_g_object)
       call_g_object =
     Some \<lparr>delta_content = None,
           delta_tool_calls =
             [\<lparr>dtc_index = 1, dtc_type = str ''function'', dtc_id = str ''phi4_tool_call_stream'',
               dtc_function = \<lparr>fc_name = str ''g'', fc_arguments = str ''[2]''\<rparr>\<rparr>]\<rparr>\<close>
  by (simp add: step_eval)

text \<open>
  Claim C3, amended.  Every call event of the tag-delimited streaming extractor carries
  the id that the generator yields at that step, and the step leaves the generator in
  its next state; two distinct call events of a session of the tag-delimited extractor
  never share an id, provided the generator never repeats an id.  Every call event of
  the implicit-JSON streaming extractor carries the constant id
  \<^verbatim>\<open>phi4_tool_call_stream\<close>.
\<close>

theorem streaming_call_ids:
  "(fst (deepseek_extract_tool_calls_streaming float_repr gen g prev cur delta) = Some msg
      \<and> tc \<in> set (delta_tool_calls msg)
    \<longrightarrow> dtc_id tc = fst (gen g)
        \<and> snd (deepseek_extract_tool_calls_streaming float_repr gen g prev cur delta) = snd (gen g))
   \<and> (fresh_ids gen g
    \<longrightarrow> distinct (concat (map event_ids (deepseek_steps float_repr gen g steps))))
   \<and> (phi4_extract_tool_calls_streaming float_repr prev cur delta = Some msg'
      \<and> tc' \<in> set (delta_tool_calls msg')
    \<longrightarrow> dtc_id tc' = str ''phi4_tool_call_stream'')"
proof (intro conjI impI)
  assume "fst (deepseek_extract_tool_calls_streaming float_repr gen g prev cur delta) = Some msg
      \<and> tc \<in> set (delta_tool_calls msg)"
  then show "dtc_id tc = fst (gen g)"
    and "snd (deepseek_extract_tool_calls_streaming float_repr gen g prev cur delta) = snd (gen g)"
    by (auto simp: deepseek_streaming_eq split: if_splits sum.splits)
next
  assume "fresh_ids gen g"
  then show "distinct (concat (map event_ids (deepseek_steps float_repr gen g steps)))"
    by (rule deepseek_steps_distinct_ids)
next
  assume "phi4_extract_tool_calls_streaming float_repr prev cur delta = Some msg'
      \<and> tc' \<in> set (delta_tool_calls msg')"
  then show "dtc_id tc' = str ''phi4_tool_call_stream''"
    by (auto simp: phi4_streaming_eq split: if_splits sum.splits)
qed

text \<open>
  A step in the generator state 7 emits the id \<^verbatim>\<open>call-7\<close>; a session of two steps
  that each complete a block emits \<^verbatim>\<open>call-0\<close> and \<^verbatim>\<open>call-1\<close>.
\<close>

theorem streaming_call_ids_witness:
  \<open>fst (deepseek_extract_tool_calls_streaming id counter_gen 7 [] call_f_block call_f_block) =
     Some \<lparr>delta_content = None,
           delta_tool_calls =
             [\<lparr>dtc_index = 0, dtc_type = str ''function'', dtc_id = str ''call-7'',
               dtc_function = \<lparr>fc_name = str ''f'', fc_arguments = str ''{"a": 1}''\<rparr>\<rparr>]\<rparr>
   \<and> str ''call-7'' = fst (counter_gen 7)
   \<and> snd (deepseek_extract_tool_calls_streaming id counter_gen 7 [] call_f_block call_f_block) =
       snd (counter_gen 7)
   \<and> fresh_ids counter_gen 0
   \<and> map event_ids
        (deepseek_steps id counter_gen 0
           [([], call_f_block, call_f_block),
            (call_f_block, call_f_block @ call_g_block, call_g_block)]) =
       [[str ''call-0''], [str ''call-1'']]
   \<and> distinct [str ''call-0'', str ''call-1'']
   \<and> phi4_extract_tool_calls_streaming id [] call_f_object call_f_object =
     Some \<lparr>delta_content = None,
           delta_tool_calls =
             [\<lparr>dtc_index = 0, dtc_type = str ''function'', dtc_id = str ''phi4_tool_call_stream'',
               dtc_function = \<lparr>fc_name = str ''f'', fc_arguments = str ''1''\<rparr>\<rparr>]\<rparr>\<close>
proof -
  let ?steps = "[([], call_f_block, call_f_block),
                 (call_f_block, call_f_block @ call_g_block, call_g_block)]"
  have a: \<open>fst (deepseek_extract_tool_calls_streaming id counter_gen 7 [] call_f_block
               call_f_block) =
     Some \<lparr>delta_content = None,
           delta_tool_calls =
             [\<lparr>dtc_index = 0, dtc_type = str ''function'', dtc_id = str ''call-7'',
               dtc_function = \<lparr>fc_name = str ''f'', fc_arguments = str ''{"a": 1}''\<rparr>\<rparr>]\<rparr>\<close>
    by (simp add: step_eval)
  have b: \<open>phi4_extract_tool_calls_streaming id [] call_f_object call_f_object =
     Some \<lparr>delta_content = None,
           delta_tool_calls =
             [\<lparr>dtc_index = 0, dtc_type = str ''function'', dtc_id = str ''phi4_tool_call_stream'',
               dtc_function = \<lparr>fc_name = str ''f'', fc_arguments = str ''1''\<rparr>\<rparr>]\<rparr>\<close>
    by (simp add: step_eval)
  have c: \<open>dtc_id \<lparr>dtc_index = 0, dtc_type = str ''function'', dtc_id = str ''call-7'',
               dtc_function = \<lparr>fc_name = str ''f'', fc_arguments = str ''{"a": 1}''\<rparr>\<rparr>
          = fst (counter_gen 7)
        \<and> snd (deepseek_extract_tool_calls_streaming id counter_gen 7 [] call_f_block
                 call_f_block) = snd (counter_gen 7)\<close>
    by (rule streaming_call_ids [THEN conjunct1, rule_format, OF conjI [OF a]]) simp
  have d: "fresh_ids counter_gen 0" by (rule fresh_counter_gen)
  have s1: \<open>deepseek_extract_tool_calls_streaming id counter_gen 0 [] call_f_block call_f_block =
      (Some \<lparr>delta_content = None,
             delta_tool_calls =
               [\<lparr>dtc_index = 0, dtc_type = str ''function'', dtc_id = str ''call-0'',
                 dtc_function = \<lparr>fc_name = str ''f'', fc_arguments = str ''{"a": 1}''\<rparr>\<rparr>]\<rparr>,
       1)\<close>
    by (simp add: step_eval)
  have s2: \<open>deepseek_extract_tool_calls_streaming id counter_gen 1 call_f_block
              (call_f_block @ call_g_block) call_g_block =
      (Some \<lparr>delta_content = None,
             delta_tool_calls =
               [\<lparr>dtc_index = 0, dtc_type = str ''function'', dtc_id = str ''call-1'',
                 dtc_function = \<lparr>fc_name = str ''g'', fc_arguments = str ''[2]''\<rparr>\<rparr>]\<rparr>,
       2)\<close>
    by (simp add: step_eval)
  have e: \<open>map event_ids (deepseek_steps id counter_gen 0 ?steps) =
            [[str ''call-0''], [str ''call-1'']]\<close>
    by (simp add: s1 s2 [unfolded One_nat_def])
  from streaming_call_ids [where gen = counter_gen and g = 0 and float_repr = id
         and steps = ?steps, THEN conjunct2, THEN conjunct1, rule_format, OF d]
  have f: \<open>distinct [str ''call-0'', str ''call-1'']\<close>
    unfolding e by simp
  show ?thesis
    by (intro conjI) (rule a c [THEN conjunct1, simplified] c [THEN conjunct2] d e f b)+
qed

section \<open>Streaming: how often a call is emitted\<close>

text \<open>
  Claim C1, as stated: a call emitted at one step is never emitted again at a later
  step, and a step emits at most one call event.  The first half fails: the extractors
  keep no cursor, and decode the last span again at every step.  After the block (or
  object) for \<^verbatim>\<open>f\<close> is complete, the step that appends \<^verbatim>\<open> ok\<close> emits the call
  again.
\<close>

theorem call_emitted_once_counterexample:
  \<open>deepseek_extract_tool_calls_streaming id counter_gen 0 [] call_f_block call_f_block =
      (Some \<lparr>delta_content = None,
             delta_tool_calls =
               [\<lparr>dtc_index = 0, dtc_type = str ''function'', dtc_id = str ''call-0'',
                 dtc_function = \<lparr>fc_name = str ''f'', fc_arguments = str ''{"a": 1}''\<rparr>\<rparr>]\<rparr>,
       1)
   \<and> deepseek_extract_tool_calls_streaming id counter_gen 1 call_f_block
        (call_f_block @ str '' ok'') (str '' ok'') =
      (Some \<lparr>delta_content = None,
             delta_tool_calls =
               [\<lparr>dtc_index = 0, dtc_type = str ''function'', dtc_id = str ''call-1'',
                 dtc_function = \<lparr>fc_name = str ''f'', fc_arguments = str ''{"a": 1}''\<rparr>\<rparr>]\<rparr>,
       2)
   \<and> phi4_extract_tool_calls_streaming id [] call_f_object call_f_object =
      Some \<lparr>delta_content = None,
            delta_tool_calls =
              [\<lparr>dtc_index = 0, dtc_type = str ''function'', dtc_id = str ''phi4_tool_call_stream'',
                dtc_function = \<lparr>fc_name = str ''f'', fc_arguments = str ''1''\<rparr>\<rparr>]\<rparr>
   \<and> phi4_extract_tool_calls_streaming id call_f_object (call_f_object @ str '' ok'')
        (str '' ok'') =
      Some \<lparr>delta_content = None,
            delta_tool_calls =
              [\<lparr>dtc_index = 0, dtc_type = str ''function'', dtc_id = str ''phi4_tool_call_stream'',
                dtc_function = \<lparr>fc_name = str ''f'', fc_arguments = str ''1''\<rparr>\<rparr>]\<rparr>\<close>
  by (simp add: step_eval)


text \<open>
  Claim C1, amended.  Every step's output contains at most one call event.  A call
  that a step has emitted is emitted again by every later step in which the last
  candidate span is still the same (for the implicit-JSON extractor: and the number of
  spans is the same); the tag-delimited extractor draws a new id for it.
\<close>

theorem streaming_one_event_and_reemission:
  "(fst (deepseek_extract_tool_calls_streaming float_repr gen g prev cur delta) = Some msg
      \<longrightarrow> length (delta_tool_calls msg) \<le> 1)
   \<and> (phi4_extract_tool_calls_streaming float_repr prev cur delta = Some msg'
      \<longrightarrow> length (delta_tool_calls msg') \<le> 1)
   \<and> (fst (deepseek_extract_tool_calls_streaming float_repr gen g prev cur delta) =
         Some \<lparr>delta_content = None, delta_tool_calls = [tc]\<rparr>
       \<and> finditer tool_call_block_re later \<noteq> []
       \<and> group1 (last (finditer tool_call_block_re later)) =
           group1 (last (finditer tool_call_block_re cur))
      \<longrightarrow> fst (deepseek_extract_tool_calls_streaming float_repr gen g2 prev2 later delta2) =
            Some \<lparr>delta_content = None, delta_tool_calls = [tc\<lparr>dtc_id := fst (gen g2)\<rparr>]\<rparr>)
   \<and> (phi4_extract_tool_calls_streaming float_repr prev cur delta =
         Some \<lparr>delta_content = None, delta_tool_calls = [tc']\<rparr>
       \<and> findall TOOL_CALL_REGEX later \<noteq> []
       \<and> last (findall TOOL_CALL_REGEX later) = last (findall TOOL_CALL_REGEX cur)
       \<and> length (findall TOOL_CALL_REGEX later) = length (findall TOOL_CALL_REGEX cur)
      \<longrightarrow> phi4_extract_tool_calls_streaming float_repr prev2 later delta2 =
            Some \<lparr>delta_content = None, delta_tool_calls = [tc']\<rparr>)"
proof (intro conjI)
  show "fst (deepseek_extract_tool_calls_streaming float_repr gen g prev cur delta) = Some msg
      \<longrightarrow> length (delta_tool_calls msg) \<le> 1"
    by (auto simp: deepseek_streaming_eq split: if_splits sum.splits)
  show "phi4_extract_tool_calls_streaming float_repr prev cur delta = Some msg'
      \<longrightarrow> length (delta_tool_calls msg') \<le> 1"
    by (auto simp: phi4_streaming_eq split: if_splits sum.splits)
  show "fst (deepseek_extract_tool_calls_streaming float_repr gen g prev cur delta) =
         Some \<lparr>delta_content = None, delta_tool_calls = [tc]\<rparr>
       \<and> finditer tool_call_block_re later \<noteq> []
       \<and> group1 (last (finditer tool_call_block_re later)) =
           group1 (last (finditer tool_call_block_re cur))
      \<longrightarrow> fst (deepseek_extract_tool_calls_streaming float_repr gen g2 prev2 later delta2) =
            Some \<lparr>delta_content = None, delta_tool_calls = [tc\<lparr>dtc_id := fst (gen g2)\<rparr>]\<rparr>"
    by (auto simp: deepseek_streaming_eq split: if_splits sum.splits)
  show "phi4_extract_tool_calls_streaming float_repr prev cur delta =
         Some \<lparr>delta_content = None, delta_tool_calls = [tc']\<rparr>
       \<and> findall TOOL_CALL_REGEX later \<noteq> []
       \<and> last (findall TOOL_CALL_REGEX later) = last (findall TOOL_CALL_REGEX cur)
       \<and> length (findall TOOL_CALL_REGEX later) = length (findall TOOL_CALL_REGEX cur)
      \<longrightarrow> phi4_extract_tool_calls_streaming float_repr prev2 later delta2 =
            Some \<lparr>delta_content = None, delta_tool_calls = [tc']\<rparr>"
    by (auto simp: phi4_streaming_eq split: if_splits sum.splits)
qed
theorem streaming_one_event_and_reemission_witness:
  \<open>fst (deepseek_extract_tool_calls_streaming id counter_gen 0 [] call_f_block call_f_block) =
      Some \<lparr>delta_content = None,
            delta_tool_calls =
              [\<lparr>dtc_index = 0, dtc_type = str ''function'', dtc_id = str ''call-0'',
                dtc_function = \<lparr>fc_name = str ''f'', fc_arguments = str ''{"a": 1}''\<rparr>\<rparr>]\<rparr>
   \<and> length [\<lparr>dtc_index = 0, dtc_type = str ''function'', dtc_id = str ''call-0'',
                dtc_function = \<lparr>fc_name = str ''f'', fc_arguments = str ''{"a": 1}''\<rparr>\<rparr>] \<le> 1
   \<and> finditer tool_call_block_re (call_f_block @ str '' ok'') \<noteq> []
   \<and> group1 (last (finditer tool_call_block_re (call_f_block @ str '' ok''))) =
       group1 (last (finditer tool_call_block_re call_f_block))
   \<and> fst (deepseek_extract_tool_calls_streaming id counter_gen 1 call_f_block
            (call_f_block @ str '' ok'') (str '' ok'')) =
      Some \<lparr>delta_content = None,
            delta_tool_calls =
              [\<lparr>dtc_index = 0, dtc_type = str ''function'', dtc_id = fst (counter_gen 1),
                dtc_function = \<lparr>fc_name = str ''f'', fc_arguments = str ''{"a": 1}''\<rparr>\<rparr>]\<rparr>\<close>
proof -
  let ?tc = \<open>\<lparr>dtc_index = 0, dtc_type = str ''function'', dtc_id = str ''call-0'',
               dtc_function = \<lparr>fc_name = str ''f'', fc_arguments = str ''{"a": 1}''\<rparr>\<rparr>\<close>
  have a: \<open>fst (deepseek_extract_tool_calls_streaming id counter_gen 0 [] call_f_block
               call_f_block) =
      Some \<lparr>delta_content = None, delta_tool_calls = [?tc]\<rparr>\<close>
    by (simp add: step_eval)
  have b: \<open>finditer tool_call_block_re (call_f_block @ str '' ok'') \<noteq> []\<close>
    by (simp add: step_eval)
  have c: \<open>group1 (last (finditer tool_call_block_re (call_f_block @ str '' ok''))) =
       group1 (last (finditer tool_call_block_re call_f_block))\<close>
    by (simp add: step_eval)
  note t = streaming_one_event_and_reemission
    [where float_repr = id and gen = counter_gen and g = 0 and prev = "[]"
       and cur = call_f_block and delta = call_f_block
       and msg = "\<lparr>delta_content = None, delta_tool_calls = [?tc]\<rparr>" and tc = ?tc
       and later = "call_f_block @ str '' ok''" and ?g2.0 = 1 and ?prev2.0 = call_f_block
       and ?delta2.0 = "str '' ok''"]
  have d: "length (delta_tool_calls \<lparr>delta_content = None, delta_tool_calls = [?tc]\<rparr>) \<le> 1"
    using t a by blast
  have e: \<open>fst (deepseek_extract_tool_calls_streaming id counter_gen 1 call_f_block
            (call_f_block @ str '' ok'') (str '' ok'')) =
      Some \<lparr>delta_content = None, delta_tool_calls = [?tc\<lparr>dtc_id := fst (counter_gen 1)\<rparr>]\<rparr>\<close>
    using t a b c by blast
  show ?thesis using a b c d e by simp
qed

section \<open>Streaming: free text\<close>

text \<open>
  Claim C8, as stated: free text outside a candidate block is always passed through as
  a content event, also when it arrives after a completed call.  The second half fails:
  once the text has a complete span, the step that appends \<^verbatim>\<open> Done.\<close> emits the call
  event again and no content.
\<close>

theorem text_after_call_counterexample:
  \<open>deepseek_extract_tool_calls_streaming id counter_gen 1 call_f_block
      (call_f_block @ str '' Done.'') (str '' Done.'') =
      (Some \<lparr>delta_content = None,
             delta_tool_calls =
               [\<lparr>dtc_index = 0, dtc_type = str ''function'', dtc_id = str ''call-1'',
                 dtc_function = \<lparr>fc_name = str ''f'', fc_arguments = str ''{"a": 1}''\<rparr>\<rparr>]\<rparr>,
       2)
   \<and> phi4_extract_tool_calls_streaming id call_f_object (call_f_object @ str '' Done.'')
        (str '' Done.'') =
      Some \<lparr>delta_content = None,
            delta_tool_calls =
              [\<lparr>dtc_index = 0, dtc_type = str ''function'', dtc_id = str ''phi4_tool_call_stream'',
                dtc_function = \<lparr>fc_name = str ''f'', fc_arguments = str ''1''\<rparr>\<rparr>]\<rparr>\<close>
  by (simp add: step_eval)

text \<open>
  Claim C8, amended.  When the current text has no candidate span, the step emits a
  content event that carries exactly the incremental fragment (and the generator is not
  used).  When the current text has a candidate span, a step emits no content: free
  text that arrives after a completed call is not passed through.
\<close>

theorem streaming_content_passthrough:
  "(finditer tool_call_block_re cur = []
      \<longrightarrow> deepseek_extract_tool_calls_streaming float_repr gen g prev cur delta =
            (Some \<lparr>delta_content = Some delta, delta_tool_calls = []\<rparr>, g))
   \<and> (findall TOOL_CALL_REGEX cur = []
      \<longrightarrow> phi4_extract_tool_calls_streaming float_repr prev cur delta =
            Some \<lparr>delta_content = Some delta, delta_tool_calls = []\<rparr>)
   \<and> (finditer tool_call_block_re cur \<noteq> []
       \<and> fst (deepseek_extract_tool_calls_streaming float_repr gen g prev cur delta) = Some msg
      \<longrightarrow> delta_content msg = None)
   \<and> (findall TOOL_CALL_REGEX cur \<noteq> []
       \<and> phi4_extract_tool_calls_streaming float_repr prev cur delta = Some msg'
      \<longrightarrow> delta_content msg' = None)"
  by (auto simp: phi4_streaming_eq deepseek_streaming_eq split: if_splits sum.splits)

theorem streaming_content_passthrough_witness:
  \<open>finditer tool_call_block_re (str ''Hello wor'') = []
   \<and> deepseek_extract_tool_calls_streaming id counter_gen 0 (str ''Hello '') (str ''Hello wor'')
        (str ''wor'') =
      (Some \<lparr>delta_content = Some (str ''wor''), delta_tool_calls = []\<rparr>, 0)
   \<and> findall TOOL_CALL_REGEX (str ''Hello wor'') = []
   \<and> phi4_extract_tool_calls_streaming id (str ''Hello '') (str ''Hello wor'') (str ''wor'') =
      Some \<lparr>delta_content = Some (str ''wor''), delta_tool_calls = []\<rparr>
   \<and> finditer tool_call_block_re call_f_block \<noteq> []
   \<and> fst (deepseek_extract_tool_calls_streaming id counter_gen 0 [] call_f_block call_f_block) =
      Some \<lparr>delta_content = None,
            delta_tool_calls =
              [\<lparr>dtc_index = 0, dtc_type = str ''function'', dtc_id = str ''call-0'',
                dtc_function = \<lparr>fc_name = str ''f'', fc_arguments = str ''{"a": 1}''\<rparr>\<rparr>]\<rparr>
   \<and> findall TOOL_CALL_REGEX call_f_object \<noteq> []
   \<and> phi4_extract_tool_calls_streaming id [] call_f_object call_f_object =
      Some \<lparr>delta_content = None,
            delta_tool_calls =
              [\<lparr>dtc_index = 0, dtc_type = str ''function'', dtc_id = str ''phi4_tool_call_stream'',
                dtc_function = \<lparr>fc_name = str ''f'', fc_arguments = str ''1''\<rparr>\<rparr>]\<rparr>\<close>
proof -
  have a: \<open>finditer tool_call_block_re (str ''Hello wor'') = []\<close>
    by (simp add: step_eval)
  have b: \<open>findall TOOL_CALL_REGEX (str ''Hello wor'') = []\<close>
    by (simp add: step_eval)
  have c: \<open>finditer tool_call_block_re call_f_block \<noteq> []\<close>
    by (simp add: step_eval)
  have d: \<open>findall TOOL_CALL_REGEX call_f_object \<noteq> []\<close>
    by (simp add: step_eval)
  have e: \<open>fst (deepseek_extract_tool_calls_streaming id counter_gen 0 [] call_f_block
               call_f_block) =
      Some \<lparr>delta_content = None,
            delta_tool_calls =
              [\<lparr>dtc_index = 0, dtc_type = str ''function'', dtc_id = str ''call-0'',
                dtc_function = \<lparr>fc_name = str ''f'', fc_arguments = str ''{"a": 1}''\<rparr>\<rparr>]\<rparr>\<close>
    by (simp add: step_eval)
  have f: \<open>phi4_extract_tool_calls_streaming id [] call_f_object call_f_object =
      Some \<lparr>delta_content = None,
            delta_tool_calls =
              [\<lparr>dtc_index = 0, dtc_type = str ''function'', dtc_id = str ''phi4_tool_call_stream'',
                dtc_function = \<lparr>fc_name = str ''f'', fc_arguments = str ''1''\<rparr>\<rparr>]\<rparr>\<close>
    by (simp add: step_eval)
  note t1 = streaming_content_passthrough
    [where cur = "str ''Hello wor''" and float_repr = id and gen = counter_gen and g = 0
       and prev = "str ''Hello ''" and delta = "str ''wor''"]
  show ?thesis using a b c d e f t1 by simp
qed


section \<open>Where the first match starts\<close>

lemma ex_take_Cons:
  "(\<exists>n\<le>Suc (length cs). P (take n (c # cs))) \<longleftrightarrow> (P [] \<or> (\<exists>n\<le>length cs. P (c # take n cs)))"
proof
  assume "\<exists>n\<le>Suc (length cs). P (take n (c # cs))"
  then obtain n where n: "n \<le> Suc (length cs)" "P (take n (c # cs))" by blast
  show "P [] \<or> (\<exists>n\<le>length cs. P (c # take n cs))"
  proof (cases n)
    case 0
    with n show ?thesis by simp
  next
    case (Suc k)
    with n show ?thesis by auto
  qed
next
  assume "P [] \<or> (\<exists>n\<le>length cs. P (c # take n cs))"
  then show "\<exists>n\<le>Suc (length cs). P (take n (c # cs))"
  proof
    assume "P []"
    then have "P (take 0 (c # cs))" by simp
    then show ?thesis by blast
  next
    assume "\<exists>n\<le>length cs. P (c # take n cs)"
    then obtain n where "n \<le> length cs" "P (c # take n cs)" by blast
    then have "Suc n \<le> Suc (length cs)" "P (take (Suc n) (c # cs))" by simp_all
    then show ?thesis by blast
  qed
qed

lemma rmatch_succeeds_iff:
  "rmatch p s g \<noteq> None \<longleftrightarrow> (\<exists>n\<le>length s. mat p (take n s))"
proof (induction p s g rule: rmatch.induct)
  case (1 s g)
  show ?case by auto
next
  case (2 a p g)
  show ?case by simp
next
  case (3 a p c cs g)
  then show ?case by (simp add: ex_take_Cons)
next
  case (4 a p g)
  then show ?case by simp
next
  case (5 a p c cs g)
  then show ?case
    by (cases "accepts a c"; cases "rmatch (Star a # p) cs g") (auto simp: ex_take_Cons)
next
  case (6 a p g)
  then show ?case by simp
next
  case (7 a p c cs g)
  then show ?case
    by (cases "accepts a c"; cases "rmatch p (c # cs) g") (auto simp: ex_take_Cons)
next
  case (8 p s g)
  then show ?case by simp
next
  case (9 p s g)
  then show ?case by simp
qed

lemma rmatch_sound:
  "rmatch p s g = Some (g', r) \<Longrightarrow> \<exists>n\<le>length s. r = drop n s \<and> mat p (take n s)"
proof (induction p s g rule: rmatch.induct)
  case (1 s g)
  then show ?case by auto
next
  case (2 a p g)
  then show ?case by simp
next
  case (3 a p c cs g)
  then have "accepts a c" and "rmatch p cs g = Some (g', r)" by (auto split: if_splits)
  with 3 obtain n where "n \<le> length cs" "r = drop n cs" "mat p (take n cs)" by blast
  with \<open>accepts a c\<close> have "Suc n \<le> length (c # cs) \<and> r = drop (Suc n) (c # cs)
      \<and> mat (One a # p) (take (Suc n) (c # cs))" by simp
  then show ?case by blast
next
  case (4 a p g)
  then show ?case by simp
next
  case (5 a p c cs g)
  show ?case
  proof (cases "accepts a c \<and> rmatch (Star a # p) cs g \<noteq> None")
    case True
    with 5 have "rmatch (Star a # p) cs g = Some (g', r)" by auto
    with 5 True obtain n where "n \<le> length cs" "r = drop n cs" "mat (Star a # p) (take n cs)"
      by blast
    with True have "Suc n \<le> length (c # cs) \<and> r = drop (Suc n) (c # cs)
      \<and> mat (Star a # p) (take (Suc n) (c # cs))" by simp
    then show ?thesis by blast
  next
    case False
    with 5(4) have m: "rmatch p (c # cs) g = Some (g', r)"
      by (auto split: if_splits option.splits)
    have "\<exists>n\<le>length (c # cs). r = drop n (c # cs) \<and> mat p (take n (c # cs))"
    proof (cases "accepts a c")
      case True
      with False have "rmatch (Star a # p) cs g = None" by blast
      from 5(2) [OF True this m] show ?thesis .
    next
      case no: False
      from 5(3) [OF no m] show ?thesis .
    qed
    then obtain n where n: "n \<le> length (c # cs)" "r = drop n (c # cs)" "mat p (take n (c # cs))"
      by blast
    have "mat (Star a # p) (take n (c # cs))"
    proof (cases n)
      case 0
      with n show ?thesis by simp
    next
      case (Suc k)
      with n show ?thesis by simp
    qed
    with n show ?thesis by blast
  qed
next
  case (6 a p g)
  then show ?case by simp
next
  case (7 a p c cs g)
  show ?case
  proof (cases "rmatch p (c # cs) g")
    case (Some x)
    with 7 have m: "rmatch p (c # cs) g = Some (g', r)" by simp
    with 7(1) obtain n where n: "n \<le> length (c # cs)" "r = drop n (c # cs)"
        "mat p (take n (c # cs))"
      by blast
    have "mat (StarLazy a # p) (take n (c # cs))"
    proof (cases n)
      case 0
      with n show ?thesis by simp
    next
      case (Suc k)
      with n show ?thesis by simp
    qed
    with n show ?thesis by blast
  next
    case None
    with 7 have acc: "accepts a c" and m: "rmatch (StarLazy a # p) cs g = Some (g', r)"
      by (auto split: if_splits)
    from 7(2) [OF None acc m] obtain n where "n \<le> length cs" "r = drop n cs"
        "mat (StarLazy a # p) (take n cs)"
      by blast
    with acc have "Suc n \<le> length (c # cs) \<and> r = drop (Suc n) (c # cs)
      \<and> mat (StarLazy a # p) (take (Suc n) (c # cs))" by simp
    then show ?thesis by blast
  qed
next
  case (8 p s g)
  then show ?case by simp
next
  case (9 p s g)
  then show ?case by simp
qed

lemma finditer_from_Nil: "finditer_from p i [] = []"
  by (simp add: finditer_from.simps [of p i "[]"] split: option.splits)

lemma first_match:
  "finditer_from p i s = m # ms \<Longrightarrow>
     \<exists>k g r. k \<le> length s \<and> m_start m = i + k
       \<and> (\<forall>j<k. rmatch p (drop j s) ([], []) = None)
       \<and> rmatch p (drop k s) ([], []) = Some (g, r)
       \<and> length r < length (drop k s)
       \<and> group0 m = take (length (drop k s) - length r) (drop k s)"
proof (induction s arbitrary: i)
  case Nil
  then show ?case by (simp add: finditer_from_Nil)
next
  case (Cons c cs)
  show ?case
  proof (cases "rmatch p (c # cs) ([], [])")
    case None
    with Cons.prems have "finditer_from p (Suc i) cs = m # ms"
      by (simp add: finditer_from.simps [of p i "c # cs"])
    from Cons.IH [OF this] obtain k g r where k: "k \<le> length cs" "m_start m = Suc i + k"
        "\<forall>j<k. rmatch p (drop j cs) ([], []) = None"
        "rmatch p (drop k cs) ([], []) = Some (g, r)"
        "length r < length (drop k cs)"
        "group0 m = take (length (drop k cs) - length r) (drop k cs)"
      by blast
    have "\<forall>j<Suc k. rmatch p (drop j (c # cs)) ([], []) = None"
    proof (intro allI impI)
      fix j assume "j < Suc k"
      then show "rmatch p (drop j (c # cs)) ([], []) = None"
        using None k(3) by (cases j) auto
    qed
    with k have "Suc k \<le> length (c # cs) \<and> m_start m = i + Suc k
       \<and> (\<forall>j<Suc k. rmatch p (drop j (c # cs)) ([], []) = None)
       \<and> rmatch p (drop (Suc k) (c # cs)) ([], []) = Some (g, r)
       \<and> length r < length (drop (Suc k) (c # cs))
       \<and> group0 m = take (length (drop (Suc k) (c # cs)) - length r) (drop (Suc k) (c # cs))"
      by simp
    then show ?thesis by blast
  next
    case (Some a)
    obtain go gc r where a: "a = ((go, gc), r)" by (metis prod.exhaust)
    show ?thesis
    proof (cases "length r < length (c # cs)")
      case True
      with Some a Cons.prems have
        "m = \<lparr>m_start = i, group0 = take (length (c # cs) - length r) (c # cs),
              group1 = take (length go - length gc) go\<rparr>"
        by (simp add: finditer_from.simps [of p i "c # cs"])
      with Some a True have "0 \<le> length (c # cs) \<and> m_start m = i + 0
       \<and> (\<forall>j<0. rmatch p (drop j (c # cs)) ([], []) = None)
       \<and> rmatch p (drop 0 (c # cs)) ([], []) = Some ((go, gc), r)
       \<and> length r < length (drop 0 (c # cs))
       \<and> group0 m = take (length (drop 0 (c # cs)) - length r) (drop 0 (c # cs))"
        by simp
      then show ?thesis by blast
    next
      case False
      with Some a Cons.prems show ?thesis
        by (simp add: finditer_from.simps [of p i "c # cs"])
    qed
  qed
qed

lemma before_first_least:
  "k \<le> length s \<Longrightarrow> startswith (drop k s) b \<Longrightarrow> \<forall>j<k. \<not> startswith (drop j s) b
     \<Longrightarrow> before_first b s = take k s"
proof (induction s arbitrary: k)
  case Nil
  then show ?case by simp
next
  case (Cons x xs)
  show ?case
  proof (cases k)
    case 0
    with Cons.prems show ?thesis by simp
  next
    case (Suc k')
    with Cons.prems have no: "\<not> startswith (x # xs) b" by force
    have "\<forall>j<k'. \<not> startswith (drop j xs) b"
    proof (intro allI impI)
      fix j assume "j < k'"
      then have "Suc j < k" using Suc by simp
      with Cons.prems(3) have "\<not> startswith (drop (Suc j) (x # xs)) b" by blast
      then show "\<not> startswith (drop j xs) b" by simp
    qed
    with Cons.IH [of k'] Cons.prems Suc have "before_first b xs = take k' xs" by simp
    with no Suc show ?thesis by simp
  qed
qed

lemma startswith_take: "startswith s w \<longleftrightarrow> length w \<le> length s \<and> take (length w) s = w"
  by (induction s w rule: startswith.induct) auto

lemma mat_prefix_matches:
  assumes "mat p w" and "startswith t w"
  shows "rmatch p t g \<noteq> None"
proof -
  from assms(2) have le: "length w \<le> length t" and tk: "take (length w) t = w"
    by (simp_all add: startswith_take)
  from assms(1) tk have "mat p (take (length w) t)" by simp
  with le have "\<exists>n\<le>length t. mat p (take n t)" by blast
  then show ?thesis by (simp only: rmatch_succeeds_iff)
qed

lemma before_first_group0:
  assumes "finditer_from p 0 s = m # ms"
  shows "before_first (group0 m) s = take (m_start m) s"
proof -
  from first_match [OF assms] obtain k g r where k: "k \<le> length s" "m_start m = k"
      "\<forall>j<k. rmatch p (drop j s) ([], []) = None"
      "rmatch p (drop k s) ([], []) = Some (g, r)"
      "length r < length (drop k s)"
      "group0 m = take (length (drop k s) - length r) (drop k s)"
    by auto
  from rmatch_sound [OF k(4)] obtain n where n: "n \<le> length (drop k s)" "r = drop n (drop k s)"
      "mat p (take n (drop k s))"
    by blast
  have lr: "length r = length (drop k s) - n"
    unfolding n(2) by (rule length_drop)
  have d: "length (drop k s) - length r = n"
    unfolding lr using n(1) by (rule diff_diff_cancel)
  have w: "group0 m = take n (drop k s)"
    using k(6) unfolding d .
  have matw: "mat p (group0 m)"
    unfolding w by (rule n(3))
  have here: "startswith (drop k s) (group0 m)"
    unfolding w using n(1) by (simp add: startswith_take)
  have before: "\<forall>j<k. \<not> startswith (drop j s) (group0 m)"
  proof (intro allI impI notI)
    fix j assume jk: "j < k" and sw: "startswith (drop j s) (group0 m)"
    from mat_prefix_matches [OF matw sw] have "rmatch p (drop j s) ([], []) \<noteq> None" .
    moreover from k(3) jk have "rmatch p (drop j s) ([], []) = None" by blast
    ultimately show False by contradiction
  qed
  from before_first_least [OF k(1) here before] have "before_first (group0 m) s = take k s" .
  then show ?thesis unfolding k(2) .
qed

lemma rmatch_escape_only:
  "rmatch (escape b) s g = (if startswith s b then Some (g, drop (length b) s) else None)"
  using rmatch_escape [of b "[]" s g] by simp

lemma rmatch_lazy_dot_literal:
  "rmatch (StarLazy Dot # GroupClose # escape e) u g \<noteq> None \<longleftrightarrow> contains e u"
proof (induction u arbitrary: g)
  case Nil
  show ?case by (cases e) (simp_all add: rmatch_escape_only)
next
  case (Cons c cs)
  then show ?case by (simp add: rmatch_escape_only)
qed

lemma rmatch_tool_call_block_re:
  "rmatch tool_call_block_re t g \<noteq> None \<longleftrightarrow>
     startswith t calls_begin \<and> contains calls_end (drop (length calls_begin) t)"
proof -
  have "rmatch tool_call_block_re t g =
          (if startswith t calls_begin
           then rmatch (StarLazy Dot # GroupClose # escape calls_end)
                  (drop (length calls_begin) t) (drop (length calls_begin) t, snd g)
           else None)"
    by (simp add: tool_call_block_re_def call_begin_def call_end_def rmatch_escape)
  then show ?thesis
    using rmatch_lazy_dot_literal
      [of calls_end "drop (length calls_begin) t" "(drop (length calls_begin) t, snd g)"]
    by (cases "startswith t calls_begin") (simp_all only: if_True if_False simp_thms)
qed

lemma contains_drop: "contains e (drop n u) \<Longrightarrow> contains e u"
proof (induction u arbitrary: n)
  case Nil
  then show ?case by simp
next
  case (Cons x xs)
  then show ?case by (cases n) auto
qed

lemma before_first_calls_begin:
  assumes "finditer_from tool_call_block_re 0 s = m # ms"
  shows "before_first calls_begin s = take (m_start m) s"
proof -
  from first_match [OF assms] obtain k g r where k: "k \<le> length s" "m_start m = k"
      "\<forall>j<k. rmatch tool_call_block_re (drop j s) ([], []) = None"
      "rmatch tool_call_block_re (drop k s) ([], []) = Some (g, r)"
    by auto
  from k(4) have "rmatch tool_call_block_re (drop k s) ([], []) \<noteq> None" by simp
  with rmatch_tool_call_block_re [of "drop k s" "([], [])"]
  have here: "startswith (drop k s) calls_begin"
    and e: "contains calls_end (drop (length calls_begin) (drop k s))"
    by (simp_all only: simp_thms)
  have before: "\<forall>j<k. \<not> startswith (drop j s) calls_begin"
  proof (intro allI impI notI)
    fix j assume "j < k" and sw: "startswith (drop j s) calls_begin"
    have "drop (length calls_begin) (drop k s) =
            drop (k - j) (drop (length calls_begin) (drop j s))"
      using \<open>j < k\<close> by (simp add: add.commute)
    with e have "contains calls_end (drop (k - j) (drop (length calls_begin) (drop j s)))"
      by (simp only:)
    then have "contains calls_end (drop (length calls_begin) (drop j s))"
      by (rule contains_drop)
    with sw rmatch_tool_call_block_re [of "drop j s" "([], [])"]
    have "rmatch tool_call_block_re (drop j s) ([], []) \<noteq> None"
      by blast
    moreover from k(3) \<open>j < k\<close> have "rmatch tool_call_block_re (drop j s) ([], []) = None"
      by blast
    ultimately show False by contradiction
  qed
  from before_first_least [OF k(1) here before] have "before_first calls_begin s = take k s" .
  then show ?thesis unfolding k(2) .
qed

text \<open>Neither pattern matches the empty string, so a match always consumes input.\<close>

lemma rmatch_consumes:
  assumes "rmatch p s g = Some (g', r)" and "\<not> mat p []"
  shows "length r < length s"
proof -
  from rmatch_sound [OF assms(1)] obtain n where n: "n \<le> length s" "r = drop n s"
      "mat p (take n s)"
    by blast
  have "n \<noteq> 0"
  proof
    assume "n = 0"
    with n(3) have "mat p []" by simp
    with assms(2) show False by contradiction
  qed
  with n(1) have "length s - n < length s" by arith
  then show ?thesis unfolding n(2) length_drop .
qed

lemma rmatch_tool_call_block_re_shorter:
  "rmatch tool_call_block_re s g = Some (g', r) \<Longrightarrow> length r < length s"
  by (erule rmatch_consumes)
     (simp add: tool_call_block_re_def call_begin_def calls_begin_def escape_def)

lemma rmatch_TOOL_CALL_REGEX_shorter:
  "rmatch TOOL_CALL_REGEX s g = Some (g', r) \<Longrightarrow> length r < length s"
  by (erule rmatch_consumes) (simp add: TOOL_CALL_REGEX_def)

section \<open>Non-streaming extraction: the leftover content\<close>

lemma phi4_loop_Nil: "phi4_loop float_repr [] [] = []"
  by simp

text \<open>
  Claim C4, as stated: when the calls are not empty, the content of either extractor is
  the trimmed text before the first call span, and \<open>None\<close> when that is empty.  The
  implicit-JSON extractor has no such conversion: for a text that begins with the call
  its content is the empty string.
\<close>

theorem leftover_content_counterexample:
  \<open>phi4_extract_tool_calls id call_f_object =
     Inr \<lparr>tools_called = True,
          tool_calls = [\<lparr>tc_type = str ''function'',
                         tc_function = \<lparr>fc_name = str ''f'', fc_arguments = str ''1''\<rparr>\<rparr>],
          content = Some []\<rparr>
   \<and> strip (take (m_start (hd (finditer TOOL_CALL_REGEX call_f_object))) call_f_object) = []\<close>
  by (simp add: step_eval)

text \<open>
  Claim C4, amended.  When the calls of the result are not empty, the content of the
  tag-delimited extractor is the trimmed text before the first candidate span, and
  \<open>None\<close> when that is empty; the content of the implicit-JSON extractor is the
  trimmed text before the first candidate span, the empty string when that is empty.
\<close>

theorem leftover_content_trimmed_prefix:
  "(tool_calls (deepseek_extract_tool_calls float_repr s) \<noteq> []
      \<longrightarrow> finditer tool_call_block_re s \<noteq> []
        \<and> content (deepseek_extract_tool_calls float_repr s) =
            (let c = strip (take (m_start (hd (finditer tool_call_block_re s))) s)
             in if c = [] then None else Some c))
   \<and> (\<forall>r. phi4_extract_tool_calls float_repr s = Inr r \<and> tool_calls r \<noteq> []
      \<longrightarrow> finditer TOOL_CALL_REGEX s \<noteq> []
        \<and> content r = Some (strip (take (m_start (hd (finditer TOOL_CALL_REGEX s))) s)))"
proof (intro conjI impI allI)
  assume calls: "tool_calls (deepseek_extract_tool_calls float_repr s) \<noteq> []"
  then have "deepseek_loop float_repr (findall tool_call_block_re s) [] \<noteq> []"
    by (simp add: deepseek_tool_calls)
  then have "findall tool_call_block_re s \<noteq> []" by auto
  then show ne: "finditer tool_call_block_re s \<noteq> []" by (simp add: findall_def)
  then obtain m ms where ms: "finditer_from tool_call_block_re 0 s = m # ms"
    unfolding finditer_def by (cases "finditer_from tool_call_block_re 0 s") auto
  from before_first_calls_begin [OF ms]
  have pre: "before_first calls_begin s = take (m_start (hd (finditer tool_call_block_re s))) s"
    by (simp add: finditer_def ms)
  have "contains calls_begin s"
    using \<open>findall tool_call_block_re s \<noteq> []\<close> findall_tool_call_block_re_absent by blast
  then show "content (deepseek_extract_tool_calls float_repr s) =
            (let c = strip (take (m_start (hd (finditer tool_call_block_re s))) s)
             in if c = [] then None else Some c)"
    by (simp add: deepseek_extract_tool_calls_def deepseek_extract_body_def split_head_def
          calls_begin_nonempty Let_def pre)
next
  fix r
  assume a: "phi4_extract_tool_calls float_repr s = Inr r \<and> tool_calls r \<noteq> []"
  then have r: "r = \<lparr>tools_called = True,
              tool_calls = phi4_loop float_repr (findall TOOL_CALL_REGEX s) [],
              content = Some (strip (before_first (hd (findall TOOL_CALL_REGEX s)) s))\<rparr>"
    and calls: "phi4_loop float_repr (findall TOOL_CALL_REGEX s) [] \<noteq> []"
    by (auto simp: phi4_extract_tool_calls_eq Let_def)
  from calls have "findall TOOL_CALL_REGEX s \<noteq> []" by auto
  then show ne: "finditer TOOL_CALL_REGEX s \<noteq> []" by (simp add: findall_def)
  then obtain m ms where ms: "finditer_from TOOL_CALL_REGEX 0 s = m # ms"
    unfolding finditer_def by (cases "finditer_from TOOL_CALL_REGEX 0 s") auto
  then have hd: "hd (findall TOOL_CALL_REGEX s) = group0 m"
    by (simp add: findall_def finditer_def TOOL_CALL_REGEX_no_group)
  from before_first_group0 [OF ms]
  have "before_first (hd (findall TOOL_CALL_REGEX s)) s =
          take (m_start (hd (finditer TOOL_CALL_REGEX s))) s"
    by (simp add: hd finditer_def ms)
  with r show "content r = Some (strip (take (m_start (hd (finditer TOOL_CALL_REGEX s))) s))"
    by simp
qed

theorem leftover_content_trimmed_prefix_witness:
  \<open>tool_calls (deepseek_extract_tool_calls id (str '' hi '' @ call_f_block)) \<noteq> []
   \<and> finditer tool_call_block_re (str '' hi '' @ call_f_block) \<noteq> []
   \<and> m_start (hd (finditer tool_call_block_re (str '' hi '' @ call_f_block))) = 4
   \<and> content (deepseek_extract_tool_calls id (str '' hi '' @ call_f_block)) = Some (str ''hi'')
   \<and> tool_calls (deepseek_extract_tool_calls id call_f_block) \<noteq> []
   \<and> content (deepseek_extract_tool_calls id call_f_block) = None
   \<and> (\<exists>r. phi4_extract_tool_calls id (str ''x '' @ call_f_object) = Inr r
          \<and> tool_calls r \<noteq> [] \<and> content r = Some (str ''x''))\<close>
proof -
  have a: \<open>tool_calls (deepseek_extract_tool_calls id (str '' hi '' @ call_f_block)) \<noteq> []\<close>
    by (simp add: step_eval)
  have b: \<open>m_start (hd (finditer tool_call_block_re (str '' hi '' @ call_f_block))) = 4\<close>
    by (simp add: step_eval)
  have c: \<open>strip (take 4 (str '' hi '' @ call_f_block)) = str ''hi''\<close>
    by (simp add: step_eval)
  have d: \<open>tool_calls (deepseek_extract_tool_calls id call_f_block) \<noteq> []\<close>
    by (simp add: step_eval)
  have e: \<open>m_start (hd (finditer tool_call_block_re call_f_block)) = 0\<close>
    by (simp add: step_eval)
  have f: \<open>phi4_extract_tool_calls id (str ''x '' @ call_f_object) =
     Inr \<lparr>tools_called = True,
          tool_calls = [\<lparr>tc_type = str ''function'',
                         tc_function = \<lparr>fc_name = str ''f'', fc_arguments = str ''1''\<rparr>\<rparr>],
          content = Some (str ''x'')\<rparr>\<close>
    by (simp add: step_eval)
  note t1 = leftover_content_trimmed_prefix
    [where float_repr = id and s = \<open>str '' hi '' @ call_f_block\<close>, THEN conjunct1, rule_format, OF a]
  note t2 = leftover_content_trimmed_prefix
    [where float_repr = id and s = call_f_block, THEN conjunct1, rule_format, OF d]
  have g: \<open>content (deepseek_extract_tool_calls id (str '' hi '' @ call_f_block)) = Some (str ''hi'')\<close>
  proof -
    from t1 have \<open>content (deepseek_extract_tool_calls id (str '' hi '' @ call_f_block)) =
        (let c = strip (take 4 (str '' hi '' @ call_f_block))
         in if c = [] then None else Some c)\<close>
      unfolding b by (rule conjunct2)
    then show ?thesis unfolding c Let_def by (simp add: str_def)
  qed
  have h: \<open>content (deepseek_extract_tool_calls id call_f_block) = None\<close>
    using t2 by (simp add: e Let_def strip_def lstrip_def rstrip_def)
  show ?thesis using a t1 b g d h f by simp
qed

section \<open>The scanner consumes input\<close>

text \<open>
  Whatever \<open>scan_once\<close> and its loops return leaves less input than they got, so the
  length tests inside the loops always succeed.
\<close>

lemma int_part_shorter: "int_part s = Some (ip, r) \<Longrightarrow> length r < length s"
proof (cases s)
  case Nil
  assume "int_part s = Some (ip, r)"
  with Nil show ?thesis by simp
next
  case (Cons d ds)
  assume "int_part s = Some (ip, r)"
  with Cons have "r = dropWhile is_digit ds \<or> r = ds" by (auto split: if_splits)
  with Cons length_dropWhile_le [of is_digit ds] show ?thesis by auto
qed

lemma frac_part_le: "frac_part s = (fp, r) \<Longrightarrow> length r \<le> length s"
proof (induction s rule: frac_part.induct)
  case (1 p d ds)
  then have "r = dropWhile is_digit ds \<or> r = p # d # ds" by (auto split: if_splits)
  with length_dropWhile_le [of is_digit ds] show ?case by auto
qed auto

lemma exp_part_le: "exp_part s = (ep, r) \<Longrightarrow> length r \<le> length s"
proof (induction s rule: exp_part.induct)
  case (1 e x xs)
  then have "r = dropWhile is_digit xs \<or> r = dropWhile is_digit (x # xs) \<or> r = e # x # xs"
    by (auto simp: Let_def split: if_splits)
  with length_dropWhile_le [of is_digit xs] length_dropWhile_le [of is_digit "x # xs"]
  show ?case by auto
qed auto

lemma match_number_shorter:
  assumes "match_number s = Some (v, r)"
  shows "length r < length s"
proof -
  define s1 where "s1 = (case s of c # cs \<Rightarrow> if c = 45 then cs else s | [] \<Rightarrow> s)"
  have l1: "length s1 \<le> length s" unfolding s1_def by (cases s) auto
  have m: "match_number s =
     (case int_part s1 of
        None \<Rightarrow> None
      | Some (ip, s2) \<Rightarrow>
          Some (if fst (frac_part s2) = [] \<and> fst (exp_part (snd (frac_part s2))) = []
                then JInt (if (case s of c # cs \<Rightarrow> c \<noteq> 45 | [] \<Rightarrow> True)
                           then int (digits_val ip) else - int (digits_val ip))
                else JFloat ((case s of c # cs \<Rightarrow> if c = 45 then [45] else [] | [] \<Rightarrow> [])
                             @ ip @ fst (frac_part s2) @ fst (exp_part (snd (frac_part s2)))),
                snd (exp_part (snd (frac_part s2)))))"
    unfolding s1_def match_number_def
    by (cases s) (auto simp: case_prod_unfold Let_def split: option.splits)
  from assms m obtain ip s2 where ip: "int_part s1 = Some (ip, s2)"
    and r: "r = snd (exp_part (snd (frac_part s2)))"
    by (cases "int_part s1") auto
  have "length (snd (frac_part s2)) \<le> length s2"
    by (rule frac_part_le [of s2 "fst (frac_part s2)"]) simp
  moreover have "length (snd (exp_part (snd (frac_part s2)))) \<le> length (snd (frac_part s2))"
    by (rule exp_part_le [of _ "fst (exp_part (snd (frac_part s2)))"]) simp
  ultimately show ?thesis using l1 int_part_shorter [OF ip] r by simp
qed

lemma scan_constant_shorter: "scan_constant s = Some (v, r) \<Longrightarrow> length r < length s"
  by (cases s) (auto simp: scan_constant_def str_def split: if_splits)

lemma scan_once_shorter_all:
  "(\<forall>v r. scan_once s = Some (v, r) \<longrightarrow> length r < length s)"
  "(\<forall>v r. object_loop acc s' = Some (v, r) \<longrightarrow> length r < length s')"
  "(\<forall>v r. array_loop acc' s'' = Some (v, r) \<longrightarrow> length r < length s'')"
proof (induction s and acc s' and acc' s'' rule: scan_once_object_loop_array_loop.induct)
  case 1
  show ?case by simp
next
  case (2 c cs)
  show ?case
  proof (intro allI impI)
    fix v r assume a: "scan_once (c # cs) = Some (v, r)"
    consider "c = 34" | "c = 123" | "c = 91" | "c \<noteq> 34" "c \<noteq> 123" "c \<noteq> 91" by blast
    then show "length r < length (c # cs)"
    proof cases
      case 1
      with a obtain t where "scanstring cs [] = Some (t, r)" by (auto split: option.splits)
      from scanstring_shorter [OF this] show ?thesis by simp
    next
      case 2
      with a obtain d ds where d: "skip_ws cs = d # ds" by (auto split: list.splits)
      show ?thesis
      proof (cases "d = 125")
        case True
        with a 2 d have "r = ds" by simp
        with skip_ws_Cons_shorter [OF d] show ?thesis by simp
      next
        case False
        with a 2 d have "object_loop [] (d # ds) = Some (v, r)" by simp
        with "2.IH"(1) [OF _ _ d False] 2 have "length r < length (d # ds)" by simp
        with skip_ws_Cons_shorter [OF d] show ?thesis by simp
      qed
    next
      case 3
      with a obtain d ds where d: "skip_ws cs = d # ds" by (auto split: list.splits)
      show ?thesis
      proof (cases "d = 93")
        case True
        with a 3 d have "r = ds" by simp
        with skip_ws_Cons_shorter [OF d] show ?thesis by simp
      next
        case False
        with a 3 d have "array_loop [] (d # ds) = Some (v, r)" by simp
        with "2.IH"(2) [OF _ _ _ d False] 3 have "length r < length (d # ds)" by simp
        with skip_ws_Cons_shorter [OF d] show ?thesis by simp
      qed
    next
      case 4
      with a have "scan_constant (c # cs) = Some (v, r) \<or> match_number (c # cs) = Some (v, r)"
        by (auto split: option.splits)
      with scan_constant_shorter match_number_shorter show ?thesis by blast
    qed
  qed
next
  case (3 acc)
  show ?case by simp
next
  case (4 acc q s1)
  show ?case
  proof (intro allI impI)
    fix v r assume a: "object_loop acc (q # s1) = Some (v, r)"
    then have q: "q = 34" by (auto split: if_splits)
    with a obtain key s2 where k: "scanstring s1 [] = Some (key, s2)"
      by (auto split: option.splits)
    with a q obtain col s3 where c: "skip_ws s2 = col # s3" by (auto split: list.splits)
    with a q k have col: "col = 58" by (auto split: if_splits)
    with a q k c obtain w s4 where w: "scan_once (skip_ws s3) = Some (w, s4)"
      by (auto split: option.splits)
    with a q k c col have g: "length s4 < length (q # s1)" by (auto split: if_splits)
    with a q k c col w obtain e s5 where e: "skip_ws s4 = e # s5" by (auto split: list.splits)
    from skip_ws_Cons_shorter [OF e] g have l5: "length s5 < length (q # s1)" by simp
    show "length r < length (q # s1)"
    proof (cases "e = 125")
      case True
      with a q k c col w g e have "r = s5" by simp
      with l5 show ?thesis by simp
    next
      case False
      with a q k c col w g e have e44: "e = 44"
        and rec: "object_loop (dict_set acc key w) (skip_ws s5) = Some (v, r)"
        by (auto split: if_splits)
      have "length r < length (skip_ws s5)"
        using "4.IH"(2) rec q k c col w g e False e44 by (auto simp del: object_loop.simps)
      with length_skip_ws [of s5] l5 show ?thesis by simp
    qed
  qed
next
  case (5 acc s)
  show ?case
  proof (intro allI impI)
    fix v r assume a: "array_loop acc s = Some (v, r)"
    then obtain w s1 where w: "scan_once s = Some (w, s1)"
      by (auto simp: array_loop.simps [of acc s] split: option.splits)
    with a have g: "length s1 < length s"
      by (auto simp: array_loop.simps [of acc s] split: if_splits)
    with a w obtain e s2 where e: "skip_ws s1 = e # s2"
      by (auto simp: array_loop.simps [of acc s] split: list.splits)
    from skip_ws_Cons_shorter [OF e] g have l2: "length s2 < length s" by simp
    show "length r < length s"
    proof (cases "e = 93")
      case True
      with a w g e have "r = s2" by (simp add: array_loop.simps [of acc s])
      with l2 show ?thesis by simp
    next
      case False
      with a w g e have e44: "e = 44"
        and rec: "array_loop (acc @ [w]) (skip_ws s2) = Some (v, r)"
        by (auto simp: array_loop.simps [of acc s] split: if_splits)
      have "length r < length (skip_ws s2)"
        using "5.IH"(2) rec w g e False e44 by auto
      with length_skip_ws [of s2] l2 show ?thesis by simp
    qed
  qed
qed

lemma scan_once_shorter: "scan_once s = Some (v, r) \<Longrightarrow> length r < length s"
  using scan_once_shorter_all(1) by blast

section \<open>The encoder prints what the decoder reads\<close>

subsection \<open>Integers\<close>

lemma delim_simps [simp]:
  "delim []" "delim (c # cs) = (c = 44 \<or> c = 93 \<or> c = 125)"
  by (simp_all add: delim_def)

lemma nat_repr_shape:
  "(n = 0 \<longrightarrow> nat_repr n = [48])
   \<and> (0 < n \<longrightarrow> (\<exists>d ds. nat_repr n = d # ds \<and> 49 \<le> d \<and> d \<le> 57 \<and> (\<forall>x\<in>set ds. is_digit x)))"
proof (induction n rule: nat_repr.induct)
  case (1 n)
  show ?case
  proof (cases "n < 10")
    case True
    then have "nat_repr n = [48 + n]" by (simp add: nat_repr.simps [of n])
    with True show ?thesis by auto
  next
    case False
    then have pos: "0 < n div 10" by simp
    with 1 [OF False] obtain d ds where d: "nat_repr (n div 10) = d # ds" "49 \<le> d" "d \<le> 57"
        "\<forall>x\<in>set ds. is_digit x"
      by blast
    have "n mod 10 < 10" by simp
    then have "is_digit (48 + n mod 10)" by (simp add: is_digit_def)
    with d False have "nat_repr n = d # (ds @ [48 + n mod 10]) \<and> 49 \<le> d \<and> d \<le> 57
        \<and> (\<forall>x\<in>set (ds @ [48 + n mod 10]). is_digit x)"
      by (simp add: nat_repr.simps [of n])
    then have "\<exists>d ds. nat_repr n = d # ds \<and> 49 \<le> d \<and> d \<le> 57 \<and> (\<forall>x\<in>set ds. is_digit x)"
      by blast
    moreover from False have "n \<noteq> 0" by simp
    ultimately show ?thesis by simp
  qed
qed

lemma digits_then_delim:
  "\<forall>x\<in>set ds. is_digit x \<Longrightarrow> delim rest \<Longrightarrow>
     takeWhile is_digit (ds @ rest) = ds \<and> dropWhile is_digit (ds @ rest) = rest"
proof (induction ds)
  case Nil
  then show ?case by (cases rest) (auto simp: is_digit_def)
next
  case (Cons a ds)
  then show ?case by simp
qed

lemma frac_part_delim: "delim rest \<Longrightarrow> frac_part rest = ([], rest)"
  by (induction rest rule: frac_part.induct) auto

lemma exp_part_delim: "delim rest \<Longrightarrow> exp_part rest = ([], rest)"
  by (induction rest rule: exp_part.induct) auto

lemma int_part_nat_repr:
  "delim rest \<Longrightarrow> int_part (nat_repr n @ rest) = Some (nat_repr n, rest)"
proof (cases "n = 0")
  case True
  then show ?thesis using nat_repr_shape [of n] by simp
next
  case False
  assume dl: "delim rest"
  from False nat_repr_shape [of n] obtain d ds where d: "nat_repr n = d # ds" "49 \<le> d" "d \<le> 57"
        "\<forall>x\<in>set ds. is_digit x"
    by auto
  with digits_then_delim [OF d(4) dl] show ?thesis by simp
qed

lemma match_number_int_repr:
  assumes "delim rest"
  shows "\<exists>j. match_number (int_repr i @ rest) = Some (JInt j, rest)"
proof (cases "i < 0")
  case True
  then show ?thesis
    by (simp add: match_number_def int_repr_def int_part_nat_repr [OF assms]
          frac_part_delim [OF assms] exp_part_delim [OF assms])
next
  case False
  from nat_repr_shape [of "nat i"] obtain d ds where d: "nat_repr (nat i) = d # ds" "d \<noteq> 45"
    by (cases "nat i = 0") auto
  have "int_part (d # ds @ rest) = Some (d # ds, rest)"
    using int_part_nat_repr [OF assms, of "nat i"] d(1) by simp
  with False d show ?thesis
    by (simp add: match_number_def int_repr_def
          frac_part_delim [OF assms] exp_part_delim [OF assms])
qed

lemma int_repr_first:
  "\<exists>c cs. int_repr i = c # cs \<and> (c = 45 \<and> (\<exists>d ds. cs = d # ds \<and> is_digit d) \<or> is_digit c)"
proof (cases "i < 0")
  case True
  then have "0 < nat (- i)" by simp
  with nat_repr_shape [of "nat (- i)"] obtain d ds where "nat_repr (nat (- i)) = d # ds"
      "49 \<le> d" "d \<le> 57"
    by auto
  with True show ?thesis by (simp add: int_repr_def is_digit_def)
next
  case False
  from nat_repr_shape [of "nat i"] obtain d ds where "nat_repr (nat i) = d # ds" "is_digit d"
    by (cases "nat i = 0") (auto simp: is_digit_def)
  with False show ?thesis by (simp add: int_repr_def)
qed

lemma scan_constant_digit: "is_digit c \<Longrightarrow> scan_constant (c # cs) = None"
  by (auto simp: scan_constant_def str_def is_digit_def)

lemma scan_constant_minus_digit: "is_digit d \<Longrightarrow> scan_constant (45 # d # ds) = None"
  by (auto simp: scan_constant_def str_def is_digit_def)

lemma scan_once_int_repr:
  assumes "delim rest"
  shows "\<exists>j. scan_once (int_repr i @ rest) = Some (JInt j, rest)"
proof -
  from int_repr_first [of i] obtain c cs where c: "int_repr i = c # cs"
      "c = 45 \<and> (\<exists>d ds. cs = d # ds \<and> is_digit d) \<or> is_digit c"
    by blast
  from match_number_int_repr [OF assms, of i] obtain j where
    j: "match_number (c # cs @ rest) = Some (JInt j, rest)"
    using c(1) by auto
  from c(2) have nc: "scan_constant (c # cs @ rest) = None"
    by (auto simp: scan_constant_digit scan_constant_minus_digit)
  from c(2) have "c \<noteq> 34" "c \<noteq> 123" "c \<noteq> 91" by (auto simp: is_digit_def)
  with nc j have "scan_once (c # cs @ rest) = Some (JInt j, rest)" by simp
  with c(1) show ?thesis by auto
qed

subsection \<open>Strings\<close>

lemma hex_val_hex_digit: "d < 16 \<Longrightarrow> hex_val (hex_digit d) = Some d"
  by (auto simp: hex_val_def hex_digit_def)

lemma unescape_control:
  assumes "c < 32"
  shows "unescape (117 # 48 # 48 # hex_digit (c div 16) # hex_digit (c mod 16) # tl0) =
           Some (c, tl0)"
proof -
  have a: "hex_val (hex_digit (c div 16)) = Some (c div 16)"
    using assms by (intro hex_val_hex_digit) simp
  have b: "hex_val (hex_digit (c mod 16)) = Some (c mod 16)"
    by (intro hex_val_hex_digit) simp
  have z: "hex_val 48 = Some 0" by (simp add: hex_val_def)
  have "hex4 (48 # 48 # hex_digit (c div 16) # hex_digit (c mod 16) # tl0) = Some (c, tl0)"
    by (simp add: a b z)
  with assms show ?thesis by simp
qed

lemma scanstring_escape_char:
  "scanstring (escape_char c @ tl0) acc = scanstring tl0 (acc @ [c])"
proof -
  consider "c = 92" | "c = 34" | "c = 8" | "c = 12" | "c = 10" | "c = 13" | "c = 9"
    | "c < 32" "c \<noteq> 8" "c \<noteq> 12" "c \<noteq> 10" "c \<noteq> 13" "c \<noteq> 9"
    | "32 \<le> c" "c \<noteq> 92" "c \<noteq> 34"
    by linarith
  then show ?thesis
  proof cases
    case 8
    then have "escape_char c = [92, 117, 48, 48, hex_digit (c div 16), hex_digit (c mod 16)]"
      by (simp add: escape_char_def)
    with unescape_control [OF 8(1), of tl0] show ?thesis by simp
  next
    case 9
    then show ?thesis by (simp add: escape_char_def)
  qed (simp_all add: escape_char_def)
qed

lemma scanstring_escaped:
  "scanstring (concat (map escape_char t) @ 34 # rest) acc = Some (acc @ t, rest)"
proof (induction t arbitrary: acc)
  case Nil
  show ?case by simp
next
  case (Cons c t)
  have "scanstring (concat (map escape_char (c # t)) @ 34 # rest) acc =
          scanstring (escape_char c @ (concat (map escape_char t) @ 34 # rest)) acc"
    by simp
  also have "\<dots> = scanstring (concat (map escape_char t) @ 34 # rest) (acc @ [c])"
    by (rule scanstring_escape_char)
  also have "\<dots> = Some ((acc @ [c]) @ t, rest)" by (rule Cons.IH)
  finally show ?case by simp
qed

lemma scan_once_encode_basestring:
  "scan_once (encode_basestring t @ rest) = Some (JStr t, rest)"
  using scanstring_escaped [of t rest "[]"] by (simp add: encode_basestring_def)

subsection \<open>The first code point of an encoded value\<close>

lemma starts_value_Cons [simp]:
  "starts_value (c # cs) = (\<not> is_ws c \<and> c \<noteq> 93 \<and> c \<noteq> 125 \<and> c \<noteq> 44 \<and> c \<noteq> 65279)"
  "\<not> starts_value []"
  by (simp_all add: starts_value_def)

lemma scan_constant_first:
  "scan_constant (c # cs) = Some x \<Longrightarrow>
     c = 110 \<or> c = 116 \<or> c = 102 \<or> c = 78 \<or> c = 73 \<or> c = 45"
  by (simp add: scan_constant_def str_def split: if_splits)

lemma match_number_first:
  "match_number (c # cs) = Some x \<Longrightarrow> c = 45 \<or> is_digit c"
  by (cases "c = 45") (auto simp: match_number_def is_digit_def split: if_splits option.splits)

lemma scan_once_first:
  assumes "scan_once (c # cs) = Some x"
  shows "c = 34 \<or> c = 123 \<or> c = 91 \<or> c = 110 \<or> c = 116 \<or> c = 102 \<or> c = 78 \<or> c = 73
         \<or> c = 45 \<or> is_digit c"
proof (rule ccontr)
  assume n: "\<not> ?thesis"
  then have "scan_constant (c # cs) = None"
    using scan_constant_first [of c cs] by (cases "scan_constant (c # cs)") auto
  moreover from n have "match_number (c # cs) = None"
    using match_number_first [of c cs] by (cases "match_number (c # cs)") auto
  ultimately have "scan_once (c # cs) = None" using n by simp
  with assms show False by simp
qed

lemma scan_once_starts_value:
  assumes "scan_once s = Some x"
  shows "starts_value s"
proof (cases s)
  case Nil
  with assms show ?thesis by simp
next
  case (Cons c cs)
  with assms scan_once_first [of c cs x] show ?thesis
    by (auto simp: is_ws_def is_digit_def)
qed

lemma starts_value_append: "starts_value s \<Longrightarrow> starts_value (s @ r)"
  by (cases s) auto

lemma skip_ws_starts_value: "starts_value s \<Longrightarrow> skip_ws s = s"
  by (cases s) (auto simp: skip_ws_def)

lemma skip_ws_space: "skip_ws (32 # s) = skip_ws s"
  by (simp add: skip_ws_def is_ws_def)

lemma scan_once_floatstr:
  assumes "valid_float_repr float_repr" and "delim rest"
  shows "\<exists>v. scan_once (floatstr float_repr l @ rest) = Some (v, rest)"
proof (cases "l = str ''NaN'' \<or> l = str ''Infinity'' \<or> l = str ''-Infinity''")
  case True
  then show ?thesis by (auto simp: floatstr_def scan_constant_def str_def)
next
  case False
  with assms show ?thesis unfolding valid_float_repr_def floatstr_def by simp
qed

lemma json_dumps_starts_value:
  assumes "valid_float_repr float_repr"
  shows "starts_value (json_dumps float_repr v)"
proof (cases v)
  case JNull
  then show ?thesis by (simp add: str_def is_ws_def)
next
  case (JBool b)
  then show ?thesis by (simp add: str_def is_ws_def)
next
  case (JInt i)
  from int_repr_first [of i] obtain c cs where "int_repr i = c # cs" "c = 45 \<or> is_digit c"
    by blast
  with JInt show ?thesis by (auto simp: is_digit_def is_ws_def)
next
  case (JFloat l)
  have "delim []" by simp
  from scan_once_floatstr [OF assms this, of l] obtain x where
    "scan_once (floatstr float_repr l) = Some x"
    by auto
  from scan_once_starts_value [OF this] JFloat show ?thesis by simp
next
  case (JStr t)
  then show ?thesis by (simp add: encode_basestring_def is_ws_def)
next
  case (JArr vs)
  then show ?thesis by (simp add: is_ws_def)
next
  case (JObj kvs)
  then show ?thesis by (simp add: is_ws_def)
qed

lemma join_Cons: "xs \<noteq> [] \<Longrightarrow> join sep (x # xs) = x @ sep @ join sep xs"
  by (cases xs) simp_all

lemma join_starts_value:
  "xs \<noteq> [] \<Longrightarrow> starts_value (hd xs) \<Longrightarrow> starts_value (join sep xs @ r)"
proof (cases xs)
  case Nil
  assume "xs \<noteq> []"
  with Nil show ?thesis by simp
next
  case (Cons x ys)
  assume "starts_value (hd xs)"
  with Cons have "starts_value x" by simp
  then have "starts_value (x @ (if ys = [] then [] else sep @ join sep ys) @ r)"
    by (rule starts_value_append)
  with Cons show ?thesis by (cases ys) simp_all
qed

subsection \<open>Arrays\<close>

lemma array_loop_last:
  assumes "scan_once (x @ 93 # rest) = Some (v', 93 # rest)" and "x \<noteq> []"
  shows "array_loop acc (x @ 93 # rest) = Some (JArr (acc @ [v']), rest)"
  using assms
  by (simp add: array_loop.simps [of acc "x @ 93 # rest"] skip_ws_def is_ws_def)

lemma array_loop_next:
  assumes "scan_once (x @ 44 # 32 # y) = Some (v', 44 # 32 # y)" and "x \<noteq> []"
    and "starts_value y"
  shows "array_loop acc (x @ 44 # 32 # y) = array_loop (acc @ [v']) y"
proof -
  have "skip_ws (44 # 32 # y) = 44 # 32 # y" by (simp add: skip_ws_def is_ws_def)
  moreover have "skip_ws (32 # y) = y"
    using assms(3) by (simp add: skip_ws_space skip_ws_starts_value)
  ultimately show ?thesis
    using assms(1,2) by (simp add: array_loop.simps [of acc "x @ 44 # 32 # y"])
qed

lemma array_loop_join:
  assumes elems: "\<And>v rest. v \<in> set vs \<Longrightarrow> delim rest \<Longrightarrow>
                    \<exists>v'. scan_once (json_dumps float_repr v @ rest) = Some (v', rest)"
    and valid: "valid_float_repr float_repr"
    and ne: "vs \<noteq> []"
  shows "\<exists>vs'. array_loop acc (join [44, 32] (map (json_dumps float_repr) vs) @ 93 # rest) =
           Some (JArr (acc @ vs'), rest)"
  using ne elems
proof (induction vs arbitrary: acc rule: list_nonempty_induct)
  case (single v)
  have "delim (93 # rest)" by simp
  with single obtain v' where
    "scan_once (json_dumps float_repr v @ 93 # rest) = Some (v', 93 # rest)"
    by (meson list.set_intros(1))
  moreover have "json_dumps float_repr v \<noteq> []"
    using json_dumps_starts_value [OF valid, of v] by auto
  ultimately have "array_loop acc (json_dumps float_repr v @ 93 # rest) =
      Some (JArr (acc @ [v']), rest)"
    by (rule array_loop_last)
  then show ?case by auto
next
  case (cons v vs)
  let ?y = "join [44, 32] (map (json_dumps float_repr) vs) @ 93 # rest"
  have sy: "starts_value ?y"
    using cons.hyps json_dumps_starts_value [OF valid]
    by (intro join_starts_value) (auto simp: hd_map)
  have "delim (44 # 32 # ?y)" by simp
  with cons.prems obtain v' where
    v': "scan_once (json_dumps float_repr v @ 44 # 32 # ?y) = Some (v', 44 # 32 # ?y)"
    by (meson list.set_intros(1))
  have nev: "json_dumps float_repr v \<noteq> []"
    using json_dumps_starts_value [OF valid, of v] by auto
  have step: "array_loop acc (json_dumps float_repr v @ 44 # 32 # ?y) = array_loop (acc @ [v']) ?y"
    using v' nev sy by (rule array_loop_next)
  from cons.IH [of "acc @ [v']"] cons.prems obtain vs' where
    "array_loop (acc @ [v']) ?y = Some (JArr ((acc @ [v']) @ vs'), rest)"
    by (meson list.set_intros(2))
  with step have "array_loop acc (json_dumps float_repr v @ 44 # 32 # ?y) =
      Some (JArr (acc @ (v' # vs')), rest)"
    by simp
  moreover have "join [44, 32] (map (json_dumps float_repr) (v # vs)) @ 93 # rest =
      json_dumps float_repr v @ 44 # 32 # ?y"
    using cons.hyps by (simp add: join_Cons)
  ultimately show ?case by metis
qed

subsection \<open>Objects, and all values\<close>

lemma encode_basestring_Cons:
  "encode_basestring k @ r = 34 # (concat (map escape_char k) @ 34 # r)"
  by (simp add: encode_basestring_def)

lemma object_loop_last:
  assumes "scan_once (x @ 125 # rest) = Some (v', 125 # rest)" and "starts_value x"
  shows "object_loop acc (encode_basestring k @ 58 # 32 # x @ 125 # rest) =
           Some (JObj (dict_set acc k v'), rest)"
proof -
  have a: "scanstring (concat (map escape_char k) @ 34 # 58 # 32 # x @ 125 # rest) [] =
             Some (k, 58 # 32 # x @ 125 # rest)"
    using scanstring_escaped [of k "58 # 32 # x @ 125 # rest" "[]"] by simp
  have b: "skip_ws (58 # 32 # x @ 125 # rest) = 58 # 32 # x @ 125 # rest"
    by (simp add: skip_ws_def is_ws_def)
  have c: "skip_ws (32 # x @ 125 # rest) = x @ 125 # rest"
    using assms(2) by (simp add: skip_ws_space skip_ws_starts_value starts_value_append)
  have d: "skip_ws (125 # rest) = 125 # rest"
    by (simp add: skip_ws_def is_ws_def)
  show ?thesis
    unfolding encode_basestring_Cons
    by (simp add: a b c d assms(1))
qed

lemma object_loop_next:
  assumes "scan_once (x @ 44 # 32 # y) = Some (v', 44 # 32 # y)" and "starts_value x"
    and "starts_value y"
  shows "object_loop acc (encode_basestring k @ 58 # 32 # x @ 44 # 32 # y) =
           object_loop (dict_set acc k v') y"
proof -
  have a: "scanstring (concat (map escape_char k) @ 34 # 58 # 32 # x @ 44 # 32 # y) [] =
             Some (k, 58 # 32 # x @ 44 # 32 # y)"
    using scanstring_escaped [of k "58 # 32 # x @ 44 # 32 # y" "[]"] by simp
  have b: "skip_ws (58 # 32 # x @ 44 # 32 # y) = 58 # 32 # x @ 44 # 32 # y"
    by (simp add: skip_ws_def is_ws_def)
  have c: "skip_ws (32 # x @ 44 # 32 # y) = x @ 44 # 32 # y"
    using assms(2) by (simp add: skip_ws_space skip_ws_starts_value starts_value_append)
  have d: "skip_ws (44 # 32 # y) = 44 # 32 # y"
    by (simp add: skip_ws_def is_ws_def)
  have e: "skip_ws (32 # y) = y"
    using assms(3) by (simp add: skip_ws_space skip_ws_starts_value)
  show ?thesis
    unfolding encode_basestring_Cons
    by (simp add: a b c d e assms(1))
qed

lemma object_loop_join:
  assumes elems: "\<And>kv rest. kv \<in> set kvs \<Longrightarrow> delim rest \<Longrightarrow>
                    \<exists>v'. scan_once (json_dumps float_repr (snd kv) @ rest) = Some (v', rest)"
    and valid: "valid_float_repr float_repr"
    and ne: "kvs \<noteq> []"
  shows "\<exists>kvs'. object_loop acc
            (join [44, 32]
               (map (\<lambda>kv. encode_basestring (fst kv) @ [58, 32] @ json_dumps float_repr (snd kv))
                  kvs) @ 125 # rest) =
           Some (JObj kvs', rest)"
  using ne elems
proof (induction kvs arbitrary: acc rule: list_nonempty_induct)
  case (single kv)
  have "delim (125 # rest)" by simp
  with single obtain v' where
    "scan_once (json_dumps float_repr (snd kv) @ 125 # rest) = Some (v', 125 # rest)"
    by (meson list.set_intros(1))
  then have "object_loop acc
       (encode_basestring (fst kv) @ 58 # 32 # json_dumps float_repr (snd kv) @ 125 # rest) =
      Some (JObj (dict_set acc (fst kv) v'), rest)"
    using json_dumps_starts_value [OF valid] by (rule object_loop_last)
  then show ?case by auto
next
  case (cons kv kvs)
  let ?item = "\<lambda>kv. encode_basestring (fst kv) @ [58, 32] @ json_dumps float_repr (snd kv)"
  let ?y = "join [44, 32] (map ?item kvs) @ 125 # rest"
  have "starts_value (?item (hd kvs))"
    by (simp add: encode_basestring_def is_ws_def)
  with cons.hyps have sy: "starts_value ?y"
    by (intro join_starts_value) (auto simp: hd_map)
  have "delim (44 # 32 # ?y)" by simp
  with cons.prems obtain v' where
    v': "scan_once (json_dumps float_repr (snd kv) @ 44 # 32 # ?y) = Some (v', 44 # 32 # ?y)"
    by (meson list.set_intros(1))
  have step: "object_loop acc
       (encode_basestring (fst kv) @ 58 # 32 # json_dumps float_repr (snd kv) @ 44 # 32 # ?y) =
      object_loop (dict_set acc (fst kv) v') ?y"
    using v' json_dumps_starts_value [OF valid] sy by (rule object_loop_next)
  from cons.IH [of "dict_set acc (fst kv) v'"] cons.prems obtain kvs' where
    "object_loop (dict_set acc (fst kv) v') ?y = Some (JObj kvs', rest)"
    by (meson list.set_intros(2))
  with step have "object_loop acc
       (encode_basestring (fst kv) @ 58 # 32 # json_dumps float_repr (snd kv) @ 44 # 32 # ?y) =
      Some (JObj kvs', rest)"
    by simp
  moreover have "join [44, 32] (map ?item (kv # kvs)) @ 125 # rest =
      encode_basestring (fst kv) @ 58 # 32 # json_dumps float_repr (snd kv) @ 44 # 32 # ?y"
    using cons.hyps by (simp add: join_Cons)
  ultimately show ?case by metis
qed

lemma scan_once_json_dumps:
  assumes valid: "valid_float_repr float_repr"
  shows "delim rest \<Longrightarrow> \<exists>v'. scan_once (json_dumps float_repr v @ rest) = Some (v', rest)"
proof (induction v arbitrary: rest)
  case JNull
  show ?case by (simp add: scan_constant_def str_def)
next
  case (JBool b)
  show ?case by (simp add: scan_constant_def str_def)
next
  case (JInt i)
  from scan_once_int_repr [OF JInt, of i] show ?case by auto
next
  case (JFloat l)
  from scan_once_floatstr [OF valid JFloat, of l] show ?case by simp
next
  case (JStr t)
  show ?case by (simp add: scan_once_encode_basestring)
next
  case (JArr vs)
  show ?case
  proof (cases "vs = []")
    case True
    then show ?thesis by (simp add: skip_ws_def is_ws_def)
  next
    case False
    let ?y = "join [44, 32] (map (json_dumps float_repr) vs) @ 93 # rest"
    have sy: "starts_value ?y"
      using False json_dumps_starts_value [OF valid]
      by (intro join_starts_value) (auto simp: hd_map)
    then obtain d ds where y: "?y = d # ds" "d \<noteq> 93" by (cases ?y) auto
    from array_loop_join [OF JArr.IH valid False, of "[]" rest] obtain vs' where
      "array_loop [] ?y = Some (JArr vs', rest)"
      by auto
    moreover have "scan_once (91 # ?y) = array_loop [] ?y"
      using skip_ws_starts_value [OF sy] y by simp
    ultimately show ?thesis by simp
  qed
next
  case (JObj kvs)
  show ?case
  proof (cases "kvs = []")
    case True
    then show ?thesis by (simp add: skip_ws_def is_ws_def)
  next
    case False
    let ?item = "\<lambda>kv. encode_basestring (fst kv) @ [58, 32] @ json_dumps float_repr (snd kv)"
    let ?y = "join [44, 32] (map ?item kvs) @ 125 # rest"
    have "starts_value (?item (hd kvs))"
      by (simp add: encode_basestring_def is_ws_def)
    with False have sy: "starts_value ?y"
      by (intro join_starts_value) (auto simp: hd_map)
    then obtain d ds where y: "?y = d # ds" "d \<noteq> 125" by (cases ?y) auto
    have elems: "\<And>kv rest. kv \<in> set kvs \<Longrightarrow> delim rest \<Longrightarrow>
                    \<exists>v'. scan_once (json_dumps float_repr (snd kv) @ rest) = Some (v', rest)"
    proof -
      fix kv :: "pystr \<times> json" and rest
      assume mem: "kv \<in> set kvs" and dl: "delim rest"
      have "snd kv \<in> Basic_BNFs.snds kv" by (cases kv) simp
      from JObj.IH [OF mem this dl]
      show "\<exists>v'. scan_once (json_dumps float_repr (snd kv) @ rest) = Some (v', rest)" .
    qed
    from object_loop_join [OF elems valid False, of "[]" rest] obtain kvs' where
      "object_loop [] ?y = Some (JObj kvs', rest)"
      by auto
    moreover have "scan_once (123 # ?y) = object_loop [] ?y"
      using skip_ws_starts_value [OF sy] y by simp
    ultimately show ?thesis by simp
  qed
qed

lemma json_loads_json_dumps:
  assumes "valid_float_repr float_repr"
  shows "\<exists>v'. json_loads (json_dumps float_repr v) = Inr v'"
proof -
  have "delim []" by simp
  from scan_once_json_dumps [OF assms this, of v] obtain v' where
    v': "scan_once (json_dumps float_repr v) = Some (v', [])"
    by auto
  from json_dumps_starts_value [OF assms, of v]
  have sv: "starts_value (json_dumps float_repr v)" .
  then have "\<not> startswith (json_dumps float_repr v) [65279]"
    by (cases "json_dumps float_repr v") auto
  with v' skip_ws_starts_value [OF sv] show ?thesis
    by (simp add: json_loads_def skip_ws_def)
qed

section \<open>Call records\<close>

lemma valid_sample_float_repr: "valid_float_repr sample_float_repr"
  unfolding valid_float_repr_def
proof (intro allI impI)
  fix l :: pystr and rest
  assume "delim rest"
  then have "takeWhile is_digit rest = []" and "dropWhile is_digit rest = rest"
    and "exp_part rest = ([], rest)"
    using digits_then_delim [of "[]" rest] by (simp_all add: exp_part_delim)
  then have "scan_once (sample_float_repr l @ rest) = Some (JFloat (str ''0.5''), rest)"
    by (simp add: sample_float_repr_def str_def scan_constant_def match_number_def is_digit_def)
  then show "\<exists>v. scan_once (sample_float_repr l @ rest) = Some (v, rest)" by blast
qed

lemma new_FunctionCall_Inr:
  "new_FunctionCall raw_name args = Inr f \<Longrightarrow>
     raw_name = JStr (fc_name f) \<and> fc_name f \<noteq> [] \<and> fc_arguments f = args"
  by (cases raw_name) (auto split: if_splits)

lemma parse_call_well_formed:
  assumes "valid_float_repr float_repr" and "parse_call float_repr k obj = Inr f"
  shows "fc_name f \<noteq> [] \<and> (\<exists>v. json_loads (fc_arguments f) = Inr v)"
proof -
  from assms(2) obtain n a where "new_FunctionCall n (json_dumps float_repr a) = Inr f"
    by (auto simp: parse_call_def split: sum.splits)
  from new_FunctionCall_Inr [OF this] json_loads_json_dumps [OF assms(1), of a]
  show ?thesis by auto
qed

lemma decode_call_well_formed:
  assumes "valid_float_repr float_repr" and "decode_call float_repr k t = Inr tc"
  shows "fc_name (tc_function tc) \<noteq> [] \<and> (\<exists>v. json_loads (fc_arguments (tc_function tc)) = Inr v)"
proof -
  from assms(2) obtain obj f where "parse_call float_repr k obj = Inr f" "tc_function tc = f"
    by (auto simp: decode_call_def split: sum.splits)
  with parse_call_well_formed [OF assms(1)] show ?thesis by auto
qed

lemma set_map_filter: "set (List.map_filter f xs) = {y. \<exists>x\<in>set xs. f x = Some y}"
  by (induction xs) (auto simp: List.map_filter_simps split: option.splits)

text \<open>
  Claim C9, as stated: a call record is refused when its name is not a string or is
  empty, so every returned record has a non-empty name and arguments that are valid JSON
  text.  The last part fails: the decoder reads the constants \<^verbatim>\<open>NaN\<close> and
  \<^verbatim>\<open>-Infinity\<close>, the encoder prints them again, and the arguments of the record are
  then not JSON.
\<close>

theorem arguments_valid_json_counterexample:
  \<open>valid_float_repr sample_float_repr
   \<and> tool_calls (deepseek_extract_tool_calls sample_float_repr
        (calls_begin @ str ''{"name": "f", "parameters": [NaN, -Infinity]}'' @ calls_end)) =
       [\<lparr>tc_type = str ''function'',
         tc_function = \<lparr>fc_name = str ''f'', fc_arguments = str ''[NaN, -Infinity]''\<rparr>\<rparr>]
   \<and> \<not> valid_json_text (str ''[NaN, -Infinity]'')
   \<and> phi4_extract_tool_calls sample_float_repr (str ''{"name": "f", "arguments": NaN}'') =
       Inr \<lparr>tools_called = True,
            tool_calls = [\<lparr>tc_type = str ''function'',
                           tc_function = \<lparr>fc_name = str ''f'', fc_arguments = str ''NaN''\<rparr>\<rparr>],
            content = Some []\<rparr>
   \<and> \<not> valid_json_text (str ''NaN'')\<close>
proof (intro conjI)
  show "valid_float_repr sample_float_repr" by (rule valid_sample_float_repr)
  show \<open>tool_calls (deepseek_extract_tool_calls sample_float_repr
        (calls_begin @ str ''{"name": "f", "parameters": [NaN, -Infinity]}'' @ calls_end)) =
       [\<lparr>tc_type = str ''function'',
         tc_function = \<lparr>fc_name = str ''f'', fc_arguments = str ''[NaN, -Infinity]''\<rparr>\<rparr>]\<close>
    by (simp add: step_eval)
  show \<open>\<not> valid_json_text (str ''[NaN, -Infinity]'')\<close>
    by (simp add: valid_json_text_def step_eval)
  show \<open>phi4_extract_tool_calls sample_float_repr (str ''{"name": "f", "arguments": NaN}'') =
       Inr \<lparr>tools_called = True,
            tool_calls = [\<lparr>tc_type = str ''function'',
                           tc_function = \<lparr>fc_name = str ''f'', fc_arguments = str ''NaN''\<rparr>\<rparr>],
            content = Some []\<rparr>\<close>
    by (simp add: step_eval)
  show \<open>\<not> valid_json_text (str ''NaN'')\<close>
    by (simp add: valid_json_text_def step_eval)
qed

text \<open>
  Claim C9, amended.  Building a call record fails with \<^verbatim>\<open>MalformedCallError\<close>
  whenever the raw name is not a string or is the empty string, and then the span gives
  no record.  Consequently every call record that either extractor returns, in a
  non-streaming result or in a streaming call event, has a non-empty name and arguments
  that \<^verbatim>\<open>json.loads\<close> accepts: JSON text in which a non-finite float is written
  \<^verbatim>\<open>NaN\<close>, \<^verbatim>\<open>Infinity\<close> or \<^verbatim>\<open>-Infinity\<close>.  (The floats are printed by
  \<open>float_repr\<close>, of which the theorem assumes that the decoder reads what it prints.)
\<close>

theorem call_records_well_formed:
  "((\<forall>n. raw_name \<noteq> JStr n) \<or> raw_name = JStr []
      \<longrightarrow> new_FunctionCall raw_name args = Inl MalformedCallError)
   \<and> (getitem obj (str ''name'') = Inr raw_name \<and> getitem obj k = Inr a
       \<and> ((\<forall>n. raw_name \<noteq> JStr n) \<or> raw_name = JStr [])
      \<longrightarrow> parse_call float_repr k obj = Inl MalformedCallError)
   \<and> (valid_float_repr float_repr \<longrightarrow>
        (\<forall>tc\<in>set (tool_calls (deepseek_extract_tool_calls float_repr s)).
            fc_name (tc_function tc) \<noteq> []
            \<and> (\<exists>v. json_loads (fc_arguments (tc_function tc)) = Inr v))
        \<and> (\<forall>r. phi4_extract_tool_calls float_repr s = Inr r \<longrightarrow>
             (\<forall>tc\<in>set (tool_calls r).
                fc_name (tc_function tc) \<noteq> []
                \<and> (\<exists>v. json_loads (fc_arguments (tc_function tc)) = Inr v)))
        \<and> (\<forall>msg. fst (deepseek_extract_tool_calls_streaming float_repr gen g prev cur delta)
                    = Some msg \<longrightarrow>
             (\<forall>tc\<in>set (delta_tool_calls msg).
                fc_name (dtc_function tc) \<noteq> []
                \<and> (\<exists>v. json_loads (fc_arguments (dtc_function tc)) = Inr v)))
        \<and> (\<forall>msg. phi4_extract_tool_calls_streaming float_repr prev cur delta = Some msg \<longrightarrow>
             (\<forall>tc\<in>set (delta_tool_calls msg).
                fc_name (dtc_function tc) \<noteq> []
                \<and> (\<exists>v. json_loads (fc_arguments (dtc_function tc)) = Inr v))))"
proof (intro conjI impI)
  assume "(\<forall>n. raw_name \<noteq> JStr n) \<or> raw_name = JStr []"
  then show "new_FunctionCall raw_name args = Inl MalformedCallError"
    by (cases raw_name) auto
next
  assume "getitem obj (str ''name'') = Inr raw_name \<and> getitem obj k = Inr a
       \<and> ((\<forall>n. raw_name \<noteq> JStr n) \<or> raw_name = JStr [])"
  then show "parse_call float_repr k obj = Inl MalformedCallError"
    by (cases raw_name) (auto simp: parse_call_def)
next
  assume valid: "valid_float_repr float_repr"
  show "\<forall>tc\<in>set (tool_calls (deepseek_extract_tool_calls float_repr s)).
            fc_name (tc_function tc) \<noteq> []
            \<and> (\<exists>v. json_loads (fc_arguments (tc_function tc)) = Inr v)"
  proof
    fix tc assume "tc \<in> set (tool_calls (deepseek_extract_tool_calls float_repr s))"
    then have "tc \<in> set (List.map_filter
              (\<lambda>m. case decode_call float_repr (str ''parameters'') (strip m) of
                     Inr tc \<Rightarrow> Some tc | Inl e \<Rightarrow> None)
              (findall tool_call_block_re s))"
      by (simp add: deepseek_tool_calls deepseek_loop_map_filter)
    then obtain m where
      "(case decode_call float_repr (str ''parameters'') (strip m) of
          Inr tc \<Rightarrow> Some tc | Inl e \<Rightarrow> None) = Some tc"
      unfolding set_map_filter by auto
    then have "decode_call float_repr (str ''parameters'') (strip m) = Inr tc"
      by (cases "decode_call float_repr (str ''parameters'') (strip m)") auto
    from decode_call_well_formed [OF valid this]
    show "fc_name (tc_function tc) \<noteq> []
            \<and> (\<exists>v. json_loads (fc_arguments (tc_function tc)) = Inr v)" .
  qed
next
  assume valid: "valid_float_repr float_repr"
  show "\<forall>r. phi4_extract_tool_calls float_repr s = Inr r \<longrightarrow>
             (\<forall>tc\<in>set (tool_calls r).
                fc_name (tc_function tc) \<noteq> []
                \<and> (\<exists>v. json_loads (fc_arguments (tc_function tc)) = Inr v))"
  proof (intro allI impI ballI)
    fix r tc
    assume "phi4_extract_tool_calls float_repr s = Inr r" and "tc \<in> set (tool_calls r)"
    then have "tc \<in> set (List.map_filter
              (\<lambda>m. case decode_call float_repr (str ''arguments'') m of
                     Inr tc \<Rightarrow> Some tc | Inl e \<Rightarrow> None)
              (findall TOOL_CALL_REGEX s))"
      by (auto simp: phi4_extract_tool_calls_eq Let_def phi4_loop_map_filter)
    then obtain m where
      "(case decode_call float_repr (str ''arguments'') m of
          Inr tc \<Rightarrow> Some tc | Inl e \<Rightarrow> None) = Some tc"
      unfolding set_map_filter by auto
    then have "decode_call float_repr (str ''arguments'') m = Inr tc"
      by (cases "decode_call float_repr (str ''arguments'') m") auto
    from decode_call_well_formed [OF valid this]
    show "fc_name (tc_function tc) \<noteq> []
            \<and> (\<exists>v. json_loads (fc_arguments (tc_function tc)) = Inr v)" .
  qed
next
  assume valid: "valid_float_repr float_repr"
  show "\<forall>msg. fst (deepseek_extract_tool_calls_streaming float_repr gen g prev cur delta)
                    = Some msg \<longrightarrow>
             (\<forall>tc\<in>set (delta_tool_calls msg).
                fc_name (dtc_function tc) \<noteq> []
                \<and> (\<exists>v. json_loads (fc_arguments (dtc_function tc)) = Inr v))"
  proof (intro allI impI ballI)
    fix msg tc
    assume "fst (deepseek_extract_tool_calls_streaming float_repr gen g prev cur delta) = Some msg"
      and "tc \<in> set (delta_tool_calls msg)"
    then obtain obj where "parse_call float_repr (str ''parameters'') obj = Inr (dtc_function tc)"
      by (auto simp: deepseek_streaming_eq split: if_splits sum.splits)
    from parse_call_well_formed [OF valid this]
    show "fc_name (dtc_function tc) \<noteq> []
            \<and> (\<exists>v. json_loads (fc_arguments (dtc_function tc)) = Inr v)" .
  qed
next
  assume valid: "valid_float_repr float_repr"
  show "\<forall>msg. phi4_extract_tool_calls_streaming float_repr prev cur delta = Some msg \<longrightarrow>
             (\<forall>tc\<in>set (delta_tool_calls msg).
                fc_name (dtc_function tc) \<noteq> []
                \<and> (\<exists>v. json_loads (fc_arguments (dtc_function tc)) = Inr v))"
  proof (intro allI impI ballI)
    fix msg tc
    assume "phi4_extract_tool_calls_streaming float_repr prev cur delta = Some msg"
      and "tc \<in> set (delta_tool_calls msg)"
    then obtain obj where "parse_call float_repr (str ''arguments'') obj = Inr (dtc_function tc)"
      by (auto simp: phi4_streaming_eq split: if_splits sum.splits)
    from parse_call_well_formed [OF valid this]
    show "fc_name (dtc_function tc) \<noteq> []
            \<and> (\<exists>v. json_loads (fc_arguments (dtc_function tc)) = Inr v)" .
  qed
qed

text \<open>
  An empty name and a number as name are refused; the record for a call of \<^verbatim>\<open>f\<close>
  with a float among its parameters has the name \<^verbatim>\<open>f\<close> and arguments that decode.
\<close>

theorem call_records_well_formed_witness:
  \<open>new_FunctionCall (JStr []) (str ''{}'') = Inl MalformedCallError
   \<and> new_FunctionCall (JInt 3) (str ''{}'') = Inl MalformedCallError
   \<and> valid_float_repr sample_float_repr
   \<and> tool_calls (deepseek_extract_tool_calls sample_float_repr
        (calls_begin @ str ''{"name": "f", "parameters": {"a": 1.50}}'' @ calls_end)) =
       [\<lparr>tc_type = str ''function'',
         tc_function = \<lparr>fc_name = str ''f'', fc_arguments = str ''{"a": 0.5}''\<rparr>\<rparr>]
   \<and> str ''f'' \<noteq> []
   \<and> (\<exists>v. json_loads (str ''{"a": 0.5}'') = Inr v)\<close>
proof -
  let ?s = \<open>calls_begin @ str ''{"name": "f", "parameters": {"a": 1.50}}'' @ calls_end\<close>
  let ?tc = \<open>\<lparr>tc_type = str ''function'',
         tc_function = \<lparr>fc_name = str ''f'', fc_arguments = str ''{"a": 0.5}''\<rparr>\<rparr>\<close>
  note t = call_records_well_formed [where float_repr = sample_float_repr and s = ?s]
  have a: \<open>new_FunctionCall (JStr []) (str ''{}'') = Inl MalformedCallError\<close>
    using t [where raw_name = "JStr []" and args = \<open>str ''{}''\<close>, THEN conjunct1] by simp
  have b: \<open>new_FunctionCall (JInt 3) (str ''{}'') = Inl MalformedCallError\<close>
    using t [where raw_name = "JInt 3" and args = \<open>str ''{}''\<close>, THEN conjunct1] by simp
  have c: \<open>tool_calls (deepseek_extract_tool_calls sample_float_repr ?s) = [?tc]\<close>
    by (simp add: step_eval sample_float_repr_def)
  from t [THEN conjunct2, THEN conjunct2, THEN mp, OF valid_sample_float_repr, THEN conjunct1]
  have \<open>\<forall>tc\<in>set (tool_calls (deepseek_extract_tool_calls sample_float_repr ?s)).
            fc_name (tc_function tc) \<noteq> []
            \<and> (\<exists>v. json_loads (fc_arguments (tc_function tc)) = Inr v)\<close>
    .
  then have d: \<open>str ''f'' \<noteq> [] \<and> (\<exists>v. json_loads (str ''{"a": 0.5}'') = Inr v)\<close>
    unfolding c by simp
  from a b c d valid_sample_float_repr show ?thesis by blast
qed

end
